theory Spec2Isabelle
  imports Main "HOL-Library.Word" "HOL-Library.Signed_Division"
begin

section \<open>SimCoupe Win32 audio output: the embedding of Audio.cpp\<close>

text \<open>
  The file \<^verbatim>\<open>src/SimCoupe/Win32/Audio.cpp\<close> feeds emulated sound into a looping
  DirectSound buffer and, when there is no buffer, paces the emulator with a
  periodic multimedia timer. This theory embeds \<^verbatim>\<open>Audio::Silence\<close> and
  \<^verbatim>\<open>Audio::AddData\<close> with the module's static variables as a record, the
  DirectSound and timer calls as a log of calls, and the answers of the device
  as an argument of each function.
\<close>

subsection \<open>Machine types\<close>

text \<open>
  \<^verbatim>\<open>DWORD\<close> and \<^verbatim>\<open>int\<close> are 32 bits wide on Win32. Both are \<open>32 word\<close>;
  the order \<open><\<close> on words is the unsigned one, \<open><s\<close> the signed one, and
  \<open>mod\<close> on words is the unsigned remainder.
\<close>

type_synonym DWORD = "32 word"
type_synonym cint = "32 word"
type_synonym BYTE = "8 word"

text \<open>
  What stops a call before it returns: the integer division trap of the
  processor, and a call through a null interface pointer.
\<close>

datatype fault = DivideByZero | NullDereference

subsection \<open>The module state and the calls it makes\<close>

text \<open>
  The calls the module makes to DirectSound, the multimedia timer and the kernel,
  in order, with the arguments that matter: \<open>Lock\<close> with offset, bytes and
  flags, \<open>Unlock\<close> with the two lengths, \<open>timeKillEvent\<close> with the timer,
  \<open>timeSetEvent\<close> with the interval, \<open>Message\<close> for the warning,
  \<open>WaitForSingleObject\<close> with the handle (the timeout is always
  \<^verbatim>\<open>INFINITE\<close>), \<open>Sleep\<close> with the milliseconds. A call is logged whether or
  not it succeeds. \<^verbatim>\<open>TRACE\<close> is debug output and is not logged.
\<close>

datatype call =
    GetCurrentPosition
  | Lock DWORD DWORD DWORD
  | Unlock DWORD DWORD
  | timeKillEvent DWORD
  | timeSetEvent DWORD
  | Message
  | WaitForSingleObject DWORD
  | Sleep DWORD

text \<open>
  The static variables of the file. \<open>pdsb\<close> is \<open>None\<close> for the null pointer and
  otherwise holds the memory of the device buffer, which \<^verbatim>\<open>InitDirectSound\<close>
  creates with \<^verbatim>\<open>dwBufferBytes = nSampleBufferSize\<close>. \<open>calls\<close> is the log.
\<close>

record audio =
  pdsb :: "BYTE list option"
  nSampleBufferSize :: cint
  dwWriteOffset :: DWORD
  hEvent :: DWORD
  hTimer :: DWORD
  dwTimer :: DWORD
  calls :: "call list"

definition logged :: "call \<Rightarrow> audio \<Rightarrow> audio" where
  "logged c st = st\<lparr>calls := calls st @ [c]\<rparr>"

text \<open>
  The options the file reads: \<^verbatim>\<open>GetOption(speed)\<close>, and the macro
  \<^verbatim>\<open>EMULATED_FRAMES_PER_SECOND\<close>, which is defined outside the file and is
  therefore a parameter here (the specification uses 50).
\<close>

record options =
  fps :: cint
  speed :: cint

text \<open>
  What the outside world answers during one iteration of the write loop:
  \<open>position\<close> is the answer of \<^verbatim>\<open>GetCurrentPosition\<close> (\<open>None\<close> when it fails,
  else the play and write cursors), \<open>lock_ok\<close> whether the device grants the lock.
\<close>

record step =
  position :: "(DWORD \<times> DWORD) option"
  lock_ok :: bool

text \<open>
  What the outside world answers during one call of \<^verbatim>\<open>AddData\<close>: the handle
  \<^verbatim>\<open>timeSetEvent\<close> returns (0 when it fails), whether \<open>hEvent\<close> is ever set
  while the call waits for it, and the answers for the iterations of the loop.
  The list of steps is finite: a call that needs more answers than it holds has
  not returned yet.
\<close>

record env =
  timer :: DWORD
  signalled :: bool
  steps :: "step list"

text \<open>
  What the outside world answers during \<^verbatim>\<open>Silence\<close>: whether the lock of the
  whole buffer succeeds, and the value \<^verbatim>\<open>dwPlayCursor\<close> holds after
  \<^verbatim>\<open>GetCurrentPosition\<close> (the source discards the result code of that call and
  uses the variable as it is).
\<close>

record silence_env =
  entire_lock_ok :: bool
  play_cursor :: DWORD

subsection \<open>The device buffer\<close>

text \<open>
  Modelled from the spec: the device contract \<^verbatim>\<open>lock(offset, length)\<close> of the
  external DirectSound buffer (section 6, and section 4.1 step 4: the region may
  be split into two spans because it wraps past the end of the physical buffer
  back to its start). A granted lock of \<open>n\<close> bytes at \<open>off\<close> returns the span
  from \<open>off\<close> to the end of the region or of the buffer, and the rest of the
  region as a second span at the start of the buffer. Pointers are indices into
  the buffer memory. The device refuses an offset or a length outside the
  buffer.
\<close>

definition ds_lock :: "BYTE list \<Rightarrow> bool \<Rightarrow> DWORD \<Rightarrow> DWORD \<Rightarrow> (nat \<times> DWORD \<times> nat \<times> DWORD) option" where
  "ds_lock buf ok off n =
     (if \<not> ok \<or> length buf \<le> unat off \<or> length buf < unat n then None
      else let l1 = min (unat n) (length buf - unat off)
           in Some (unat off, of_nat l1, 0, of_nat (unat n - l1)))"

text \<open>
  Modelled from the spec: the same lock with \<^verbatim>\<open>DSBLOCK_ENTIREBUFFER\<close>, which
  ignores offset and length and returns the whole buffer as one span.
\<close>

definition ds_lock_entire :: "BYTE list \<Rightarrow> bool \<Rightarrow> (nat \<times> DWORD) option" where
  "ds_lock_entire buf ok = (if ok then Some (0, of_nat (length buf)) else None)"

definition DSBLOCK_ENTIREBUFFER :: DWORD where
  "DSBLOCK_ENTIREBUFFER = 2"

text \<open>
  \<^verbatim>\<open>memcpy(dst, src, n)\<close> into the buffer memory \<open>m\<close>: \<open>dst\<close> is an index into
  \<open>m\<close>, \<open>src\<close> the caller's memory read from the pointer upwards. \<^verbatim>\<open>memset\<close>
  likewise. The spans a lock returns lie inside the buffer, so no index is out
  of range.
\<close>

primrec memcpy :: "BYTE list \<Rightarrow> nat \<Rightarrow> (nat \<Rightarrow> BYTE) \<Rightarrow> nat \<Rightarrow> BYTE list" where
  "memcpy m dst src 0 = m"
| "memcpy m dst src (Suc k) = (memcpy m dst src k)[dst + k := src k]"

primrec memset :: "BYTE list \<Rightarrow> nat \<Rightarrow> BYTE \<Rightarrow> nat \<Rightarrow> BYTE list" where
  "memset m dst b 0 = m"
| "memset m dst b (Suc k) = (memset m dst b k)[dst + k := b]"

text \<open>The pointer \<^verbatim>\<open>pbData_ + n\<close>.\<close>

definition advance :: "(nat \<Rightarrow> BYTE) \<Rightarrow> nat \<Rightarrow> (nat \<Rightarrow> BYTE)" where
  "advance p n = (\<lambda>i. p (n + i))"

subsection \<open>Audio::Silence\<close>

definition Silence :: "silence_env \<Rightarrow> audio \<Rightarrow> audio" where
  "Silence e st =
     (case pdsb st of
        None \<Rightarrow> st
      | Some buf \<Rightarrow>
          let st1 = logged (Lock 0 0 DSBLOCK_ENTIREBUFFER) st;
              st2 = (case ds_lock_entire buf (entire_lock_ok e) of
                       None \<Rightarrow> st1
                     | Some (pvWrite, dwLength) \<Rightarrow>
                         logged (Unlock dwLength 0)
                           (st1\<lparr>pdsb := Some (memset buf pvWrite 0 (unat dwLength))\<rparr>));
              st3 = logged GetCurrentPosition st2
          in st3\<lparr>dwWriteOffset := play_cursor e\<rparr>)"

subsection \<open>Audio::AddData without a device buffer: the frame timer\<close>

text \<open>
  \<^verbatim>\<open>1000 / (EMULATED_FRAMES_PER_SECOND*GetOption(speed)/100)\<close>, then
  \<^verbatim>\<open>if (!dwTime) dwTime = 1\<close>. The arithmetic is that of \<^verbatim>\<open>int\<close>: the product
  wraps, both divisions truncate towards zero, and a zero divisor traps. The
  quotient is then stored in a \<^verbatim>\<open>DWORD\<close>.
\<close>

definition dwTime_of :: "options \<Rightarrow> fault + DWORD" where
  "dwTime_of opt =
     (let nFrames = (word_of_int (sint (fps opt * speed opt) sdiv 100) :: cint)
      in if nFrames = 0 then Inl DivideByZero
         else let dwTime = (word_of_int (1000 sdiv sint nFrames) :: DWORD)
              in Inr (if dwTime = 0 then 1 else dwTime))"

text \<open>
  The branch \<^verbatim>\<open>if (dwTime != dwTimer)\<close>: kill a running timer, store the new
  interval and start a timer with it, warn when that fails.
\<close>

definition restart_timer :: "DWORD \<Rightarrow> DWORD \<Rightarrow> audio \<Rightarrow> audio" where
  "restart_timer answer dwTime st =
     (let st1 = (if hTimer st \<noteq> 0 then logged (timeKillEvent (hTimer st)) st else st);
          st2 = logged (timeSetEvent dwTime) (st1\<lparr>dwTimer := dwTime, hTimer := answer\<rparr>)
      in if answer = 0 then logged Message st2 else st2)"

text \<open>
  The pacer up to and including the call of \<^verbatim>\<open>WaitForSingleObject\<close>: the state
  in which the caller blocks.
\<close>

definition pacer :: "options \<Rightarrow> DWORD \<Rightarrow> audio \<Rightarrow> fault + audio" where
  "pacer opt answer st =
     (case dwTime_of opt of
        Inl f \<Rightarrow> Inl f
      | Inr dwTime \<Rightarrow>
          let st1 = (if dwTime \<noteq> dwTimer st then restart_timer answer dwTime st else st)
          in Inr (logged (WaitForSingleObject (hEvent st1)) st1))"

subsection \<open>Audio::AddData with a device buffer: the write loop\<close>

text \<open>
  The body of \<^verbatim>\<open>if (nSpace)\<close>: lock, copy into the first span and then into the
  second, each bounded by the bytes left, unlock, advance the write offset. A
  refused lock is traced and changes nothing. The result is the advanced
  pointer, the bytes left and the state.
\<close>

definition write_space ::
  "step \<Rightarrow> BYTE list \<Rightarrow> cint \<Rightarrow> (nat \<Rightarrow> BYTE) \<Rightarrow> cint \<Rightarrow> audio \<Rightarrow> (nat \<Rightarrow> BYTE) \<times> cint \<times> audio" where
  "write_space s buf nSpace pbData nLength st =
     (let st1 = logged (Lock (dwWriteOffset st) nSpace 0) st
      in case ds_lock buf (lock_ok s) (dwWriteOffset st) nSpace of
           None \<Rightarrow> (pbData, nLength, st1)
         | Some (pvWrite1, dwLength1, pvWrite2, dwLength2) \<Rightarrow>
             let dwLength1' = (if dwLength1 < nLength then dwLength1 else nLength);
                 (buf1, pbData1, nLength1) =
                   (if dwLength1' \<noteq> 0
                    then (memcpy buf pvWrite1 pbData (unat dwLength1'),
                          advance pbData (unat dwLength1'), nLength - dwLength1')
                    else (buf, pbData, nLength));
                 dwLength2' = (if dwLength2 < nLength1 then dwLength2 else nLength1);
                 (buf2, pbData2, nLength2) =
                   (if dwLength2' \<noteq> 0
                    then (memcpy buf1 pvWrite2 pbData1 (unat dwLength2'),
                          advance pbData1 (unat dwLength2'), nLength1 - dwLength2')
                    else (buf1, pbData1, nLength1));
                 st2 = logged (Unlock dwLength1' dwLength2') (st1\<lparr>pdsb := Some buf2\<rparr>)
             in (pbData2, nLength2,
                 st2\<lparr>dwWriteOffset :=
                        (dwWriteOffset st + dwLength1' + dwLength2') mod nSampleBufferSize st\<rparr>))"

text \<open>How one iteration of the loop ends.\<close>

datatype flow = Break | Continue

text \<open>
  One iteration of \<^verbatim>\<open>while (nLength_ > 0)\<close>, entered with bytes left: the query
  of the cursors (a failure leaves the loop), the space
  \<^verbatim>\<open>(nSampleBufferSize + dwPlayCursor - dwWriteOffset) % nSampleBufferSize\<close> in
  unsigned arithmetic, its signed minimum with the bytes left, the write, and
  either the exit when nothing is left or \<^verbatim>\<open>Sleep(2)\<close>.
\<close>

definition AddData_body ::
  "step \<Rightarrow> (nat \<Rightarrow> BYTE) \<Rightarrow> cint \<Rightarrow> audio \<Rightarrow> fault + flow \<times> (nat \<Rightarrow> BYTE) \<times> cint \<times> audio" where
  "AddData_body s pbData nLength st =
     (case pdsb st of
        None \<Rightarrow> Inl NullDereference
      | Some buf \<Rightarrow>
          let st1 = logged GetCurrentPosition st
          in (case position s of
                None \<Rightarrow> Inr (Break, pbData, nLength, st1)
              | Some (dwPlayCursor, dwWriteCursor) \<Rightarrow>
                  if nSampleBufferSize st = 0 then Inl DivideByZero
                  else
                    let nSpace0 = (nSampleBufferSize st + dwPlayCursor - dwWriteOffset st)
                                    mod nSampleBufferSize st;
                        nSpace = (if nSpace0 <s nLength then nSpace0 else nLength);
                        (pbData', nLength', st2) =
                          (if nSpace \<noteq> 0 then write_space s buf nSpace pbData nLength st1
                           else (pbData, nLength, st1))
                    in if nLength' = 0 then Inr (Break, pbData', nLength', st2)
                       else Inr (Continue, pbData', nLength', logged (Sleep 2) st2)))"

text \<open>
  The loop. Each iteration takes one step of answers; without one the call has
  not returned (\<open>None\<close>). The result is the bytes left when the loop ends, and the
  state.
\<close>

fun AddData_loop ::
  "step list \<Rightarrow> (nat \<Rightarrow> BYTE) \<Rightarrow> cint \<Rightarrow> audio \<Rightarrow> (fault + cint \<times> audio) option" where
  "AddData_loop [] pbData nLength st =
     (if 0 <s nLength then None else Some (Inr (nLength, st)))"
| "AddData_loop (s # ss) pbData nLength st =
     (if 0 <s nLength
      then (case AddData_body s pbData nLength st of
              Inl f \<Rightarrow> Some (Inl f)
            | Inr (Break, pbData', nLength', st') \<Rightarrow> Some (Inr (nLength', st'))
            | Inr (Continue, pbData', nLength', st') \<Rightarrow> AddData_loop ss pbData' nLength' st')
      else Some (Inr (nLength, st)))"

subsection \<open>Audio::AddData\<close>

text \<open>
  Without a buffer the call paces and returns \<^verbatim>\<open>false\<close> once the event is set
  (it waits with \<^verbatim>\<open>INFINITE\<close>, so it never returns when the event is never set);
  with a buffer it runs the loop and returns \<^verbatim>\<open>true\<close>.
\<close>

definition AddData ::
  "options \<Rightarrow> env \<Rightarrow> (nat \<Rightarrow> BYTE) \<Rightarrow> cint \<Rightarrow> audio \<Rightarrow> (fault + bool \<times> audio) option" where
  "AddData opt e pbData nLength st =
     (case pdsb st of
        None \<Rightarrow>
          (case pacer opt (timer e) st of
             Inl f \<Rightarrow> Some (Inl f)
           | Inr st' \<Rightarrow> if signalled e then Some (Inr (False, st')) else None)
      | Some buf \<Rightarrow>
          (case AddData_loop (steps e) pbData nLength st of
             None \<Rightarrow> None
           | Some (Inl f) \<Rightarrow> Some (Inl f)
           | Some (Inr (nLength', st')) \<Rightarrow> Some (Inr (True, st'))))"

subsection \<open>A device in good order\<close>

text \<open>
  The states the write loop is meant for: a buffer exists and is
  \<open>nSampleBufferSize\<close> bytes long (\<^verbatim>\<open>InitDirectSound\<close> creates it with
  \<^verbatim>\<open>dwBufferBytes = nSampleBufferSize\<close>), that size is a positive \<^verbatim>\<open>int\<close>, and
  the write offset is an offset into the buffer, as the specification's data
  model has it (it starts at 0, \<open>Silence\<close> sets it to a cursor of the device,
  \<open>AddData\<close> reduces it modulo the size).
\<close>

definition device_ok :: "audio \<Rightarrow> bool" where
  "device_ok st =
     (case pdsb st of
        None \<Rightarrow> False
      | Some buf \<Rightarrow> length buf = unat (nSampleBufferSize st) \<and> 0 <s nSampleBufferSize st \<and>
                    dwWriteOffset st < nSampleBufferSize st)"

text \<open>The device reports cursors that are offsets into its buffer of size \<open>sz\<close>.\<close>

definition cursor_in :: "cint \<Rightarrow> step \<Rightarrow> bool" where
  "cursor_in sz s = (case position s of None \<Rightarrow> True | Some (pc, wc) \<Rightarrow> pc < sz)"

subsection \<open>The specification's single contiguous write\<close>

text \<open>
  The specification compares the two-span copy with a conceptual single write of
  \<open>k\<close> bytes that starts at \<open>off\<close> and runs around the ring: byte \<open>i\<close> of the
  source lands at \<open>(off + i) mod size\<close>. This definition follows the
  specification's words; the source has no such function.
\<close>

primrec ring_write :: "BYTE list \<Rightarrow> nat \<Rightarrow> (nat \<Rightarrow> BYTE) \<Rightarrow> nat \<Rightarrow> BYTE list" where
  "ring_write m off src 0 = m"
| "ring_write m off src (Suc k) = (ring_write m off src k)[(off + k) mod length m := src k]"

subsection \<open>Calls in sequence\<close>

text \<open>
  The emulator calls \<^verbatim>\<open>AddData\<close> once per frame. This runs the write loops of
  such calls one after the other, each with the answers of the device, its data
  and its length, and adds up the bytes each loop committed (the length it was
  given less the length it left).
\<close>

fun AddData_calls ::
  "(step list \<times> (nat \<Rightarrow> BYTE) \<times> cint) list \<Rightarrow> audio \<Rightarrow> (fault + nat \<times> audio) option" where
  "AddData_calls [] st = Some (Inr (0, st))"
| "AddData_calls ((ss, pbData, nLength) # cs) st =
     (case AddData_loop ss pbData nLength st of
        None \<Rightarrow> None
      | Some (Inl f) \<Rightarrow> Some (Inl f)
      | Some (Inr (nLength', st')) \<Rightarrow>
          (case AddData_calls cs st' of
             None \<Rightarrow> None
           | Some (Inl f) \<Rightarrow> Some (Inl f)
           | Some (Inr (k, st'')) \<Rightarrow> Some (Inr (unat nLength - unat nLength' + k, st''))))"

text \<open>
  The same for whole calls of \<^verbatim>\<open>AddData\<close>, each with its options, the answers of
  the outside world, its data and its length: the results of the calls in order,
  and the state after the last one.
\<close>

fun AddData_frames ::
  "(options \<times> env \<times> (nat \<Rightarrow> BYTE) \<times> cint) list \<Rightarrow> audio \<Rightarrow> (fault + bool list \<times> audio) option" where
  "AddData_frames [] st = Some (Inr ([], st))"
| "AddData_frames ((opt, e, pbData, nLength) # fs) st =
     (case AddData opt e pbData nLength st of
        None \<Rightarrow> None
      | Some (Inl f) \<Rightarrow> Some (Inl f)
      | Some (Inr (r, st')) \<Rightarrow>
          (case AddData_frames fs st' of
             None \<Rightarrow> None
           | Some (Inl f) \<Rightarrow> Some (Inl f)
           | Some (Inr (rs, st'')) \<Rightarrow> Some (Inr (r # rs, st''))))"

subsection \<open>Concrete states\<close>

text \<open>Small states and data on which the theorems below are evaluated.\<close>

definition st9 :: audio where
  "st9 = \<lparr>pdsb = Some [1, 2, 3, 4], nSampleBufferSize = 4, dwWriteOffset = 1,
          hEvent = 7, hTimer = 0, dwTimer = 0, calls = []\<rparr>"

definition st6 :: audio where
  "st6 = \<lparr>pdsb = Some [5, 6, 7, 8], nSampleBufferSize = 4, dwWriteOffset = 3,
          hEvent = 7, hTimer = 0, dwTimer = 0, calls = []\<rparr>"

definition st7 :: audio where
  "st7 = \<lparr>pdsb = Some (replicate 1000 0), nSampleBufferSize = 1000, dwWriteOffset = 900,
          hEvent = 0, hTimer = 0, dwTimer = 0, calls = []\<rparr>"

definition st8 :: audio where
  "st8 = \<lparr>pdsb = None, nSampleBufferSize = 0, dwWriteOffset = 0,
          hEvent = 7, hTimer = 0, dwTimer = 0, calls = []\<rparr>"

definition data9 :: "nat \<Rightarrow> BYTE" where
  "data9 i = of_nat i + 11"

section \<open>Properties\<close>

subsection \<open>Memory\<close>

lemma length_memset [simp]: "length (memset m d b k) = length m"
  by (induction k) simp_all

lemma nth_memset:
  "i < length m \<Longrightarrow> memset m d b k ! i = (if d \<le> i \<and> i < d + k then b else m ! i)"
  by (induction k) (auto simp: nth_list_update less_Suc_eq)

lemma memset_all: "memset m 0 b (length m) = replicate (length m) b"
  by (rule nth_equalityI) (simp_all add: nth_memset)

lemma length_memcpy [simp]: "length (memcpy m d src k) = length m"
  by (induction k) simp_all

lemma nth_memcpy:
  "i < length m \<Longrightarrow>
   memcpy m d src k ! i = (if d \<le> i \<and> i < d + k then src (i - d) else m ! i)"
  by (induction k) (auto simp: nth_list_update less_Suc_eq)

lemma advance_0 [simp]: "advance p 0 = p"
  by (simp add: advance_def)

lemma advance_advance [simp]: "advance (advance p a) b = advance p (a + b)"
  by (simp add: advance_def add.assoc)

lemma advance_apply [simp]: "advance p a i = p (a + i)"
  by (simp add: advance_def)

lemma length_ring_write [simp]: "length (ring_write m off src k) = length m"
  by (induction k) simp_all

lemma ring_write_no_wrap:
  "off + k \<le> length m \<Longrightarrow> ring_write m off src k = memcpy m off src k"
  by (induction k) simp_all

lemma ring_write_append:
  "ring_write m off src (a + b) = ring_write (ring_write m off src a) (off + a) (advance src a) b"
  by (induction b) (simp_all add: add.assoc)

lemma ring_write_at_end:
  "off = length m \<Longrightarrow> ring_write m off src k = ring_write m 0 src k"
  by (induction k) simp_all

lemma ring_write_wrap:
  assumes "off + a = length m" and "b \<le> length m"
  shows "ring_write m off src (a + b) = memcpy (memcpy m off src a) 0 (advance src a) b"
proof -
  have "ring_write m off src (a + b)
          = ring_write (memcpy m off src a) (off + a) (advance src a) b"
    using assms(1) by (simp add: ring_write_append ring_write_no_wrap)
  also have "\<dots> = ring_write (memcpy m off src a) 0 (advance src a) b"
    using assms(1) by (intro ring_write_at_end) simp
  also have "\<dots> = memcpy (memcpy m off src a) 0 (advance src a) b"
    using assms(2) by (intro ring_write_no_wrap) simp
  finally show ?thesis .
qed

subsection \<open>Machine arithmetic\<close>

lemma uint_less_iff_unat: "uint (w :: 32 word) < int n \<longleftrightarrow> unat w < n"
proof -
  have "int (unat w) < int n \<longleftrightarrow> unat w < n" by (rule of_nat_less_iff)
  then show ?thesis by simp
qed

text \<open>A word below \<open>2^31\<close> is its own signed value; one from \<open>2^31\<close> on is negative.\<close>

lemma sint_eq_unat:
  assumes "unat (w :: 32 word) < 2147483648"
  shows "sint w = int (unat w)"
proof -
  have "uint w < int 2147483648" using assms by (simp only: uint_less_iff_unat)
  then have "uint w < 2 ^ 31" by simp
  moreover have "- (2 ^ 31) \<le> uint w" by (rule order_trans [of _ 0]) simp_all
  ultimately have "signed_take_bit 31 (uint w) = uint w"
    by (intro signed_take_bit_int_eq_self)
  then have "sint w = uint w" by (simp add: sint_uint)
  then show ?thesis by simp
qed

lemma sint_neg:
  assumes "2147483648 \<le> unat (w :: 32 word)"
  shows "sint w < 0"
proof (rule ccontr)
  assume "\<not> sint w < 0"
  then have nn: "0 \<le> sint w" by simp
  have lt: "sint w < 2147483648" using sint_less [of w] by simp
  have "uint w = uint (word_of_int (sint w) :: 32 word)" by simp
  also have "\<dots> = sint w mod 2 ^ 32" by (simp only: uint_word_of_int) simp
  also have "\<dots> = sint w" using nn lt by simp
  finally have "uint w < int 2147483648" using lt by simp
  then have "unat w < 2147483648" by (simp only: uint_less_iff_unat)
  with assms show False by simp
qed

lemma sless_0_iff:
  "0 <s (w :: 32 word) \<longleftrightarrow> 0 < unat w \<and> unat w < 2147483648"
proof (cases "unat w < 2147483648")
  case True
  then show ?thesis by (simp add: word_sless_alt sint_eq_unat del: of_nat_unat)
next
  case False
  then have "sint w < 0" by (intro sint_neg) simp
  with False show ?thesis by (simp add: word_sless_alt)
qed

lemma unat_of_nat32: "k < 4294967296 \<Longrightarrow> unat (of_nat k :: 32 word) = k"
  by (simp add: unat_of_nat)

lemma unat_of_nat_le:
  assumes "k \<le> unat (w :: 32 word)"
  shows "unat (of_nat k :: 32 word) = k"
proof -
  have "unat w < 4294967296" using unsigned_less [of w, where 'a = nat] by simp
  with assms have "k < 4294967296" by linarith
  then show ?thesis by (rule unat_of_nat32)
qed

lemma unat_add32:
  "unat a + unat b < 4294967296 \<Longrightarrow> unat (a + b :: 32 word) = unat a + unat b"
  using unat_add_lem [of a b] by simp

lemma unat_space:
  assumes "unat sz < 2147483648" "unat off < unat sz" "unat play < unat sz"
  shows "unat ((sz + play - off) mod sz :: 32 word)
           = (unat sz + unat play - unat off) mod unat sz"
proof -
  have a: "unat (sz + play) = unat sz + unat play"
    using assms by (intro unat_add32) linarith
  have "off \<le> sz + play"
    unfolding word_le_nat_alt a using assms by linarith
  then have "unat (sz + play - off) = unat sz + unat play - unat off"
    by (simp only: unat_sub a)
  then show ?thesis by (simp only: unat_mod)
qed

lemma min_signed:
  assumes "unat a < 2147483648" "0 <s (n :: 32 word)"
  shows "unat (if a <s n then a else n) = min (unat a) (unat n)"
proof -
  have n: "unat n < 2147483648" using assms(2) by (simp add: sless_0_iff)
  have "a <s n \<longleftrightarrow> unat a < unat n"
    unfolding word_sless_alt sint_eq_unat [OF assms(1)] sint_eq_unat [OF n] by (rule of_nat_less_iff)
  then show ?thesis by (simp add: min_def)
qed

lemma min_unsigned:
  "unat (if a < n then a else n :: 32 word) = min (unat a) (unat n)"
  by (simp add: word_less_nat_alt min_def)

lemma unat_offset:
  assumes "unat off + unat c1 + unat c2 < 4294967296"
  shows "unat ((off + c1 + c2) mod sz :: 32 word) = (unat off + unat c1 + unat c2) mod unat sz"
proof -
  have a: "unat (off + c1) = unat off + unat c1"
    using assms by (intro unat_add32) linarith
  have "unat (off + c1 + c2) = unat off + unat c1 + unat c2"
    using assms unat_add32 [of "off + c1" c2] unfolding a by simp
  then show ?thesis by (simp only: unat_mod)
qed

lemma clamp_unat:
  fixes l1 l2 n :: "32 word"
  assumes "c1 = (if l1 < n then l1 else n)" and "c2 = (if l2 < n - c1 then l2 else n - c1)"
  shows "unat c1 = min (unat l1) (unat n)"
    and "unat c2 = min (unat l2) (unat n - unat c1)"
    and "unat (n - c1 - c2) = unat n - (unat c1 + unat c2)"
    and "unat c1 + unat c2 \<le> unat n"
proof -
  show u1: "unat c1 = min (unat l1) (unat n)"
    unfolding assms(1) by (rule min_unsigned)
  then have le1: "c1 \<le> n" by (simp add: word_le_nat_alt)
  have s1: "unat (n - c1) = unat n - unat c1" using le1 by (rule unat_sub)
  have "unat c2 = min (unat l2) (unat (n - c1))"
    unfolding assms(2) by (rule min_unsigned)
  then show u2: "unat c2 = min (unat l2) (unat n - unat c1)" unfolding s1 .
  then have le2: "c2 \<le> n - c1" by (simp add: word_le_nat_alt s1)
  have "unat (n - c1 - c2) = unat (n - c1) - unat c2" using le2 by (rule unat_sub)
  then show "unat (n - c1 - c2) = unat n - (unat c1 + unat c2)" unfolding s1 by simp
  show "unat c1 + unat c2 \<le> unat n" using u1 u2 by simp
qed

subsection \<open>The state and the lock\<close>

lemma logged_simps [simp]:
  "calls (logged c st) = calls st @ [c]"
  "pdsb (logged c st) = pdsb st"
  "nSampleBufferSize (logged c st) = nSampleBufferSize st"
  "dwWriteOffset (logged c st) = dwWriteOffset st"
  "hEvent (logged c st) = hEvent st"
  "hTimer (logged c st) = hTimer st"
  "dwTimer (logged c st) = dwTimer st"
  by (simp_all add: logged_def)

lemma device_ok_logged [simp]: "device_ok (logged c st) = device_ok st"
  by (simp add: device_ok_def logged_def split: option.splits)

lemma device_okD:
  assumes "device_ok st"
  obtains buf where "pdsb st = Some buf" and "length buf = unat (nSampleBufferSize st)"
    and "0 < unat (nSampleBufferSize st)" and "unat (nSampleBufferSize st) < 2147483648"
    and "unat (dwWriteOffset st) < unat (nSampleBufferSize st)"
    and "nSampleBufferSize st \<noteq> 0"
proof -
  from assms obtain buf where b: "pdsb st = Some buf"
    and l: "length buf = unat (nSampleBufferSize st)"
    and s: "0 <s nSampleBufferSize st" and o: "dwWriteOffset st < nSampleBufferSize st"
    by (auto simp: device_ok_def split: option.splits)
  from s have p: "0 < unat (nSampleBufferSize st)" "unat (nSampleBufferSize st) < 2147483648"
    by (simp_all add: sless_0_iff)
  from p(1) have "nSampleBufferSize st \<noteq> 0" by (auto simp: unat_0)
  with b l p o that show thesis by (simp add: word_less_nat_alt)
qed

lemma ds_lock_SomeD:
  assumes "ds_lock buf ok off n = Some (pv1, l1, pv2, l2)"
  shows "ok" and "unat off < length buf" and "unat n \<le> length buf"
    and "pv1 = unat off" and "pv2 = 0"
    and "unat l1 = min (unat n) (length buf - unat off)"
    and "unat l2 = unat n - unat l1"
proof -
  from assms have ok: "ok" and off: "unat off < length buf" and n: "unat n \<le> length buf"
    and l1: "l1 = of_nat (min (unat n) (length buf - unat off))"
    and l2: "l2 = of_nat (unat n - min (unat n) (length buf - unat off))"
    and pv: "pv1 = unat off" "pv2 = 0"
    by (auto simp: ds_lock_def Let_def split: if_splits)
  show "ok" "unat off < length buf" "unat n \<le> length buf" "pv1 = unat off" "pv2 = 0"
    by (fact ok off n pv)+
  show u1: "unat l1 = min (unat n) (length buf - unat off)"
    unfolding l1 by (rule unat_of_nat_le [of _ n]) simp
  show "unat l2 = unat n - unat l1"
    unfolding u1 unfolding l2 by (rule unat_of_nat_le [of _ n]) simp
qed

subsection \<open>The frame timer interval\<close>

text \<open>
  C3 asks for an interval of 1 at 50 frames per second and a speed of 1 per
  cent, and for a computation that is defined at every speed from 1 on. The
  source floors the quotient (\<^verbatim>\<open>if (!dwTime) dwTime = 1\<close>) but divides first:
  the divisor \<open>50 * 1 / 100\<close> is 0 in integer arithmetic, and the division of
  1000 by it traps before the floor is reached.
\<close>

theorem dwTime_of_speed_1_traps:
  "dwTime_of \<lparr>fps = 50, speed = 1\<rparr> = Inl DivideByZero"
  by (simp add: dwTime_of_def signed_divide_int_def)

text \<open>
  Everywhere else the interval is what C3 says: whenever the product of the
  frame rate \<open>f\<close> and the speed \<open>n\<close> is at least 100 and fits an \<^verbatim>\<open>int\<close>, it is
  \<open>1000 div (f * n div 100)\<close> in integer arithmetic, raised to 1 when that
  quotient is 0. With 50 frames per second the interval is 20 at speed 100 and
  10 at speed 200, and the floor of 1 is reached from speed 2002 on.
\<close>

lemma dwTime_of_formula:
  assumes "100 \<le> f * n" and "f * n < 2147483648"
  shows "dwTime_of \<lparr>fps = of_nat f, speed = of_nat n\<rparr>
           = Inr (of_nat (max 1 (1000 div (f * n div 100))))"
proof -
  define k where "k = f * n div 100"
  have k: "1 \<le> k" "k < 2147483648" using assms by (auto simp: k_def)
  have u: "unat (of_nat (f * n) :: 32 word) = f * n"
    using assms(2) by (intro unat_of_nat32) simp
  have prod: "sint (of_nat f * of_nat n :: 32 word) = int (f * n)"
    using sint_eq_unat [of "of_nat (f * n)"] assms(2) unfolding u by simp
  have q: "int (f * n) sdiv 100 = int k"
    by (simp add: signed_divide_int_def k_def zdiv_int sgn_if)
  have uk: "unat (of_nat k :: 32 word) = k"
    using k by (intro unat_of_nat32) simp
  have nz: "(of_nat k :: 32 word) \<noteq> 0"
  proof
    assume "(of_nat k :: 32 word) = 0"
    then have "unat (of_nat k :: 32 word) = 0" by (simp only: unat_0)
    then show False using k unfolding uk by simp
  qed
  have sk: "sint (of_nat k :: 32 word) = int k"
    using sint_eq_unat [of "of_nat k"] k unfolding uk by simp
  have d: "1000 sdiv int k = int (1000 div k)"
    using k by (simp add: signed_divide_int_def zdiv_int sgn_if)
  have ud: "unat (of_nat (1000 div k) :: 32 word) = 1000 div k"
  proof -
    have "1000 div k \<le> 1000" by simp
    then have "1000 div k < 4294967296" by linarith
    then show ?thesis by (rule unat_of_nat32)
  qed
  have z: "(of_nat (1000 div k) :: 32 word) = 0 \<longleftrightarrow> 1000 div k = 0"
  proof
    assume "(of_nat (1000 div k) :: 32 word) = 0"
    then have "unat (of_nat (1000 div k) :: 32 word) = 0" by (simp only: unat_0)
    then show "1000 div k = 0" unfolding ud .
  next
    assume "1000 div k = 0"
    then show "(of_nat (1000 div k) :: 32 word) = 0" by simp
  qed
  have "dwTime_of \<lparr>fps = of_nat f, speed = of_nat n\<rparr>
          = Inr (if (of_nat (1000 div k) :: 32 word) = 0 then 1 else of_nat (1000 div k))"
    using nz by (simp add: dwTime_of_def Let_def prod q sk d del: of_nat_mult of_nat_div)
  also have "\<dots> = Inr (of_nat (max 1 (1000 div k)))"
    unfolding z by (simp add: max_def)
  finally show ?thesis unfolding k_def .
qed

lemma dwTime_of_values:
  "(100 :: nat) \<le> 50 * 100 \<and> (50 :: nat) * 100 < 2147483648 \<and>
   dwTime_of \<lparr>fps = 50, speed = 100\<rparr> = Inr 20 \<and>
   dwTime_of \<lparr>fps = 50, speed = 200\<rparr> = Inr 10 \<and>
   dwTime_of \<lparr>fps = 50, speed = 2\<rparr> = Inr 1000 \<and>
   dwTime_of \<lparr>fps = 50, speed = 2002\<rparr> = Inr 1"
  using dwTime_of_formula [of 50 100] dwTime_of_formula [of 50 200]
        dwTime_of_formula [of 50 2] dwTime_of_formula [of 50 2002]
  by simp

subsection \<open>Silence\<close>

text \<open>
  C6, as the specification states it, fails: it promises the zero fill for every
  call with a buffer, but the source fills only inside
  \<^verbatim>\<open>if (SUCCEEDED(pdsb->Lock(...)))\<close>. With the lock refused the buffer keeps its
  bytes and nothing is unlocked.
\<close>

theorem Silence_lock_refused_counterexample:
  "Silence \<lparr>entire_lock_ok = False, play_cursor = 1\<rparr> st6 =
     st6\<lparr>dwWriteOffset := 1, calls := [Lock 0 0 DSBLOCK_ENTIREBUFFER, GetCurrentPosition]\<rparr> \<and>
   pdsb (Silence \<lparr>entire_lock_ok = False, play_cursor = 1\<rparr> st6) = Some [5, 6, 7, 8]"
  by (simp add: Silence_def ds_lock_entire_def st6_def logged_def)

text \<open>
  C6, amended: without a buffer \<open>Silence\<close> changes nothing. With a buffer the
  write offset afterwards is the play cursor the device reported. When the lock
  of the whole buffer is granted (the buffer being \<open>nSampleBufferSize\<close> bytes
  long, as it is created) all \<open>nSampleBufferSize\<close> bytes are zero, the same
  length is unlocked, and nothing else changes. When the lock is refused the
  buffer is left as it is: nothing but the write offset and the log of calls
  changes, and nothing is unlocked.
\<close>

theorem Silence_zero_fills_when_locked:
  "(pdsb st = None \<longrightarrow> Silence e st = st) \<and>
   (pdsb st = Some buf \<longrightarrow>
      dwWriteOffset (Silence e st) = play_cursor e \<and>
      (entire_lock_ok e \<and> length buf = unat (nSampleBufferSize st) \<longrightarrow>
         Silence e st =
           st\<lparr>pdsb := Some (replicate (unat (nSampleBufferSize st)) 0),
              dwWriteOffset := play_cursor e,
              calls := calls st @ [Lock 0 0 DSBLOCK_ENTIREBUFFER,
                                   Unlock (nSampleBufferSize st) 0, GetCurrentPosition]\<rparr>) \<and>
      (\<not> entire_lock_ok e \<longrightarrow>
         pdsb (Silence e st) = Some buf \<and>
         Silence e st =
           st\<lparr>dwWriteOffset := play_cursor e,
              calls := calls st @ [Lock 0 0 DSBLOCK_ENTIREBUFFER, GetCurrentPosition]\<rparr>))"
proof -
  have "memset buf 0 0 (unat (nSampleBufferSize st)) = replicate (unat (nSampleBufferSize st)) 0"
    if "length buf = unat (nSampleBufferSize st)"
    using memset_all [of buf 0] that by simp
  then show ?thesis
    by (simp add: Silence_def ds_lock_entire_def Let_def logged_def)
qed

theorem Silence_zero_fills_when_locked_witness:
  "pdsb st6 = Some [5, 6, 7, 8] \<and> length [5, 6, 7, 8 :: BYTE] = unat (nSampleBufferSize st6) \<and>
   Silence \<lparr>entire_lock_ok = True, play_cursor = 1\<rparr> st6 =
     st6\<lparr>pdsb := Some [0, 0, 0, 0], dwWriteOffset := 1,
         calls := [Lock 0 0 DSBLOCK_ENTIREBUFFER, Unlock 4 0, GetCurrentPosition]\<rparr> \<and>
   Silence \<lparr>entire_lock_ok = True, play_cursor = 1\<rparr> (st6\<lparr>pdsb := None\<rparr>) = st6\<lparr>pdsb := None\<rparr> \<and>
   pdsb st9 = Some [1, 2, 3, 4] \<and>
   pdsb (Silence \<lparr>entire_lock_ok = False, play_cursor = 3\<rparr> st9) = Some [1, 2, 3, 4] \<and>
   Silence \<lparr>entire_lock_ok = False, play_cursor = 3\<rparr> st9 =
     st9\<lparr>dwWriteOffset := 3, calls := [Lock 0 0 DSBLOCK_ENTIREBUFFER, GetCurrentPosition]\<rparr>"
proof -
  have a: "pdsb st6 = Some [5, 6, 7, 8]" by (simp add: st6_def)
  have b: "length [5, 6, 7, 8 :: BYTE] = unat (nSampleBufferSize st6)" by (simp add: st6_def)
  have c: "nSampleBufferSize st6 = 4" "calls st6 = []" by (simp_all add: st6_def)
  have d: "replicate 4 (0 :: BYTE) = [0, 0, 0, 0]" by (simp add: numeral_eq_Suc)
  have n: "pdsb (st6\<lparr>pdsb := None\<rparr>) = None" by simp
  have a9: "pdsb st9 = Some [1, 2, 3, 4]" and c9: "calls st9 = []" by (simp_all add: st9_def)
  from Silence_zero_fills_when_locked
         [of st6 "\<lparr>entire_lock_ok = True, play_cursor = 1\<rparr>" "[5, 6, 7, 8]"]
       Silence_zero_fills_when_locked
         [of "st6\<lparr>pdsb := None\<rparr>" "\<lparr>entire_lock_ok = True, play_cursor = 1\<rparr>" "[]"]
       Silence_zero_fills_when_locked
         [of st9 "\<lparr>entire_lock_ok = False, play_cursor = 3\<rparr>" "[1, 2, 3, 4]"]
       a b c d n a9 c9
  show ?thesis by simp
qed

text \<open>
  C10: with a buffer, \<open>Silence\<close> sets the write offset to the reported play
  cursor whether or not the lock is granted; when the lock is refused the buffer
  keeps its bytes, nothing is unlocked, and the offset is set all the same.
\<close>

theorem Silence_offset_unconditional:
  assumes "pdsb st = Some buf"
  shows "dwWriteOffset (Silence e st) = play_cursor e \<and>
         (\<not> entire_lock_ok e \<longrightarrow>
            pdsb (Silence e st) = Some buf \<and>
            calls (Silence e st) = calls st @ [Lock 0 0 DSBLOCK_ENTIREBUFFER, GetCurrentPosition])"
  using assms
  by (simp add: Silence_def ds_lock_entire_def Let_def logged_def split: option.splits)

theorem Silence_offset_unconditional_witness:
  "pdsb st9 = Some [1, 2, 3, 4] \<and>
   dwWriteOffset (Silence \<lparr>entire_lock_ok = False, play_cursor = 2\<rparr> st9) = 2 \<and>
   pdsb (Silence \<lparr>entire_lock_ok = False, play_cursor = 2\<rparr> st9) = Some [1, 2, 3, 4] \<and>
   calls (Silence \<lparr>entire_lock_ok = False, play_cursor = 2\<rparr> st9) =
     [Lock 0 0 DSBLOCK_ENTIREBUFFER, GetCurrentPosition]"
proof -
  have a: "pdsb st9 = Some [1, 2, 3, 4]" by (simp add: st9_def)
  have c: "calls st9 = []" by (simp add: st9_def)
  from Silence_offset_unconditional [OF a, of "\<lparr>entire_lock_ok = False, play_cursor = 2\<rparr>"] a c
  show ?thesis by simp
qed

text \<open>
  \<open>Silence\<close> puts the write offset back inside the buffer, whatever it was, when
  the device reports a play cursor inside the buffer.
\<close>

lemma Silence_device_ok:
  assumes "pdsb st = Some buf" and "length buf = unat (nSampleBufferSize st)"
    and "0 <s nSampleBufferSize st" and "play_cursor e < nSampleBufferSize st"
  shows "device_ok (Silence e st)"
  using assms
  by (simp add: Silence_def ds_lock_entire_def Let_def logged_def device_ok_def)

subsection \<open>One write into the locked spans\<close>

lemma write_space_eq:
  assumes "ds_lock buf (lock_ok s) (dwWriteOffset st) nSpace = Some (pv1, l1, pv2, l2)"
    and "c1 = (if l1 < n then l1 else n)"
    and "c2 = (if l2 < n - c1 then l2 else n - c1)"
  shows "write_space s buf nSpace p n st =
           (advance p (unat c1 + unat c2), n - c1 - c2,
            st\<lparr>pdsb := Some (memcpy (memcpy buf pv1 p (unat c1)) pv2 (advance p (unat c1)) (unat c2)),
               dwWriteOffset := (dwWriteOffset st + c1 + c2) mod nSampleBufferSize st,
               calls := calls st @ [Lock (dwWriteOffset st) nSpace 0, Unlock c1 c2]\<rparr>)"
proof -
  have A: "(if c1 \<noteq> 0 then (memcpy buf pv1 p (unat c1), advance p (unat c1), n - c1)
            else (buf, p, n)) = (memcpy buf pv1 p (unat c1), advance p (unat c1), n - c1)"
    by (cases "c1 = 0") simp_all
  have B: "\<And>m q k. (if c2 \<noteq> 0 then (memcpy m pv2 q (unat c2), advance q (unat c2), k - c2)
            else (m, q, k)) = (memcpy m pv2 q (unat c2), advance q (unat c2), k - c2)"
    by (cases "c2 = 0") simp_all
  show ?thesis
    unfolding write_space_def Let_def assms(1) option.case prod.case
      assms(2) [symmetric] A assms(3) [symmetric] B
    by (simp add: logged_def)
qed

lemma write_space_refused:
  assumes "ds_lock buf (lock_ok s) (dwWriteOffset st) nSpace = None"
  shows "write_space s buf nSpace p n st = (p, n, logged (Lock (dwWriteOffset st) nSpace 0) st)"
  using assms by (simp add: write_space_def Let_def)

lemma write_space_length:
  assumes "write_space s buf nSpace p n st = (p', n', st')"
  shows "unat n' \<le> unat n"
proof (cases "ds_lock buf (lock_ok s) (dwWriteOffset st) nSpace")
  case None
  from write_space_refused [OF None, of p n] assms show ?thesis by simp
next
  case (Some r)
  then obtain pv1 l1 pv2 l2 where
    lock: "ds_lock buf (lock_ok s) (dwWriteOffset st) nSpace = Some (pv1, l1, pv2, l2)"
    by (cases r) auto
  define w1 where "w1 = (if l1 < n then l1 else n)"
  define w2 where "w2 = (if l2 < n - w1 then l2 else n - w1)"
  from write_space_eq [OF lock w1_def w2_def, of p] assms
  have "n' = n - w1 - w2" by simp
  then show ?thesis using clamp_unat (3) [OF w1_def w2_def] by simp
qed

lemma spans_geometry:
  assumes lock: "ds_lock buf ok off nSpace = Some (pv1, l1, pv2, l2)"
    and c1: "c1 = min (unat l1) (unat n)" and c2: "c2 = min (unat l2) (unat n - c1)"
  shows "pv1 + c1 \<le> length buf" and "c2 \<le> pv1" and "0 < c2 \<Longrightarrow> pv1 + c1 = length buf"
proof -
  note D = ds_lock_SomeD [OF lock]
  have L1: "unat l1 \<le> length buf - pv1" and L2: "unat l1 + unat l2 \<le> length buf"
    and L3: "0 < unat l2 \<Longrightarrow> unat l1 = length buf - pv1" and P: "pv1 < length buf"
    using D(2,3,6,7) unfolding D(4) by (simp_all add: min_def split: if_splits)
  have C1: "c1 \<le> unat l1" and C2: "c2 \<le> unat l2" and C3: "0 < c2 \<Longrightarrow> c1 = unat l1"
    unfolding c2 c1 by (simp_all add: min_def split: if_splits)
  show "pv1 + c1 \<le> length buf" using L1 C1 P by linarith
  show "c2 \<le> pv1"
  proof (cases "0 < unat l2")
    case True
    then show ?thesis using L3 L2 C2 P by linarith
  next
    case False
    then show ?thesis using C2 by simp
  qed
  show "pv1 + c1 = length buf" if "0 < c2"
  proof -
    have "0 < unat l2" using that C2 by linarith
    then show ?thesis using L3 C3 [OF that] P by linarith
  qed
qed

lemma two_spans_content:
  assumes a: "d + c1 \<le> length m" and b: "c2 \<le> d"
  shows "take c1 (drop d (memcpy (memcpy m d p c1) 0 (advance p c1) c2))
           @ take c2 (drop 0 (memcpy (memcpy m d p c1) 0 (advance p c1) c2))
         = map p [0..<c1 + c2]"
proof -
  let ?B = "memcpy (memcpy m d p c1) 0 (advance p c1) c2"
  have first: "take c1 (drop d ?B) = map p [0..<c1]"
  proof (rule nth_equalityI)
    show "length (take c1 (drop d ?B)) = length (map p [0..<c1])" using a by simp
  next
    fix i assume "i < length (take c1 (drop d ?B))"
    then have i: "i < c1" by simp
    then have "take c1 (drop d ?B) ! i = ?B ! (d + i)" using a by simp
    also have "\<dots> = memcpy m d p c1 ! (d + i)" using a b i by (simp add: nth_memcpy)
    also have "\<dots> = p i" using a i by (simp add: nth_memcpy)
    finally show "take c1 (drop d ?B) ! i = map p [0..<c1] ! i" using i by simp
  qed
  have second: "take c2 (drop 0 ?B) = map (\<lambda>j. p (c1 + j)) [0..<c2]"
  proof (rule nth_equalityI)
    show "length (take c2 (drop 0 ?B)) = length (map (\<lambda>j. p (c1 + j)) [0..<c2])"
      using a b by simp
  next
    fix j assume "j < length (take c2 (drop 0 ?B))"
    then have j: "j < c2" by simp
    then have "take c2 (drop 0 ?B) ! j = ?B ! j" by simp
    also have "\<dots> = p (c1 + j)" using a b j by (simp add: nth_memcpy)
    finally show "take c2 (drop 0 ?B) ! j = map (\<lambda>j. p (c1 + j)) [0..<c2] ! j" using j by simp
  qed
  have "[0..<c1 + c2] = [0..<c1] @ [c1..<c1 + c2]"
    by (rule upt_add_eq_append) simp
  then have "map p [0..<c1 + c2] = map p [0..<c1] @ map p [c1..<c1 + c2]"
    by (simp only: map_append)
  also have "map p [c1..<c1 + c2] = map (\<lambda>j. p (c1 + j)) [0..<c2]"
    by (rule nth_equalityI) simp_all
  finally show ?thesis using first second by simp
qed

lemma two_spans_ring:
  assumes a: "d + c1 \<le> length m" and b: "c2 \<le> d" and w: "0 < c2 \<Longrightarrow> d + c1 = length m"
  shows "memcpy (memcpy m d p c1) 0 (advance p c1) c2 = ring_write m d p (c1 + c2)"
proof (cases "c2 = 0")
  case True
  then show ?thesis using a by (simp add: ring_write_no_wrap)
next
  case False
  then have "d + c1 = length m" using w by simp
  moreover have "c2 \<le> length m" using a b by simp
  ultimately show ?thesis by (simp add: ring_write_wrap)
qed

text \<open>
  C5: when the lock is granted with the spans \<open>(pv1, l1)\<close> and \<open>(pv2, l2)\<close>, the
  source copies \<open>c1 = min l1 nLength\<close> bytes into the first span and then
  \<open>c2 = min l2 (nLength - c1)\<close> bytes into the second, reading the source bytes
  on from where the first copy stopped. The bytes then found in the two spans,
  first span first, are the first \<open>c1 + c2\<close> source bytes in order, and the buffer
  is the one a single contiguous write of \<open>c1 + c2\<close> bytes around the ring at the
  write offset gives.
\<close>

theorem split_span_write:
  assumes lock: "ds_lock buf (lock_ok s) (dwWriteOffset st) nSpace = Some (pv1, l1, pv2, l2)"
    and run: "write_space s buf nSpace pbData nLength st = (pbData', nLength', st')"
    and c1: "c1 = min (unat l1) (unat nLength)"
    and c2: "c2 = min (unat l2) (unat nLength - c1)"
  shows "\<exists>buf'. pdsb st' = Some buf' \<and>
           buf' = memcpy (memcpy buf pv1 pbData c1) pv2 (advance pbData c1) c2 \<and>
           take c1 (drop pv1 buf') @ take c2 (drop pv2 buf') = map pbData [0..<c1 + c2] \<and>
           buf' = ring_write buf (unat (dwWriteOffset st)) pbData (c1 + c2) \<and>
           pbData' = advance pbData (c1 + c2) \<and>
           unat nLength' = unat nLength - (c1 + c2)"
proof -
  define w1 where "w1 = (if l1 < nLength then l1 else nLength)"
  define w2 where "w2 = (if l2 < nLength - w1 then l2 else nLength - w1)"
  note U = clamp_unat [OF w1_def w2_def]
  have e1: "unat w1 = c1" using U(1) c1 by simp
  have e2: "unat w2 = c2" using U(2) c2 e1 by simp
  note D = ds_lock_SomeD [OF lock]
  note G = spans_geometry [OF lock c1 c2]
  let ?B = "memcpy (memcpy buf pv1 pbData c1) pv2 (advance pbData c1) c2"
  have "(pbData', nLength', st') =
          (advance pbData (c1 + c2), nLength - w1 - w2,
           st\<lparr>pdsb := Some ?B,
              dwWriteOffset := (dwWriteOffset st + w1 + w2) mod nSampleBufferSize st,
              calls := calls st @ [Lock (dwWriteOffset st) nSpace 0, Unlock w1 w2]\<rparr>)"
    using write_space_eq [OF lock w1_def w2_def, of pbData] unfolding e1 e2 run .
  then have p': "pbData' = advance pbData (c1 + c2)" and n': "nLength' = nLength - w1 - w2"
    and st': "st' = st\<lparr>pdsb := Some ?B,
              dwWriteOffset := (dwWriteOffset st + w1 + w2) mod nSampleBufferSize st,
              calls := calls st @ [Lock (dwWriteOffset st) nSpace 0, Unlock w1 w2]\<rparr>"
    by (simp_all only: prod.inject)
  have b': "pdsb st' = Some ?B" unfolding st' by simp
  have cat: "take c1 (drop pv1 ?B) @ take c2 (drop pv2 ?B) = map pbData [0..<c1 + c2]"
    unfolding D(5) by (rule two_spans_content [OF G(1) G(2)])
  have ring: "?B = ring_write buf (unat (dwWriteOffset st)) pbData (c1 + c2)"
    unfolding D(5) D(4) [symmetric] by (rule two_spans_ring [OF G(1) G(2) G(3)])
  have len: "unat nLength' = unat nLength - (c1 + c2)"
    unfolding n' U(3) e1 e2 ..
  show ?thesis using b' cat ring p' len by simp
qed

theorem split_span_write_witness:
  "ds_lock [5, 6, 7, 8] True (dwWriteOffset st6) 3 = Some (3, 1, 0, 2) \<and>
   (case write_space \<lparr>position = Some (2, 3), lock_ok = True\<rparr> [5, 6, 7, 8] 3 data9 3 st6 of
      (p, n, st') \<Rightarrow>
        pdsb st' = Some [12, 13, 7, 11] \<and> n = 0 \<and>
        take 1 (drop 3 [12, 13, 7, 11 :: BYTE]) @ take 2 (drop 0 [12, 13, 7, 11]) = [11, 12, 13] \<and>
        map data9 [0..<3] = [11, 12, 13] \<and>
        ring_write [5, 6, 7, 8] 3 data9 3 = [12, 13, 7, 11])"
proof -
  let ?s = "\<lparr>position = Some (2, 3), lock_ok = True\<rparr>"
  have lock: "ds_lock [5, 6, 7, 8] (lock_ok ?s) (dwWriteOffset st6) 3 = Some (3, 1, 0, 2)"
    by code_simp
  obtain p n st' where run: "write_space ?s [5, 6, 7, 8] 3 data9 3 st6 = (p, n, st')"
    by (metis prod_cases3)
  have c1: "(1 :: nat) = min (unat (1 :: DWORD)) (unat (3 :: cint))" by simp
  have c2: "(2 :: nat) = min (unat (2 :: DWORD)) (unat (3 :: cint) - 1)" by simp
  have off: "unat (dwWriteOffset st6) = 3" by (simp add: st6_def)
  have m: "memcpy (memcpy [5, 6, 7, 8] 3 data9 1) 0 (advance data9 1) 2 = [12, 13, 7, 11]"
    by code_simp
  have d: "map data9 [0..<3] = [11, 12, 13]" by code_simp
  have r: "ring_write [5, 6, 7, 8] 3 data9 3 = [12, 13, 7, 11]" by code_simp
  have k: "take 1 (drop 3 [12, 13, 7, 11 :: BYTE]) @ take 2 (drop 0 [12, 13, 7, 11]) = [11, 12, 13]"
    by simp
  from split_span_write [OF lock run c1 c2] obtain buf' where
    P: "pdsb st' = Some buf'"
      "buf' = memcpy (memcpy [5, 6, 7, 8] 3 data9 1) 0 (advance data9 1) 2"
      "unat n = unat (3 :: cint) - (1 + 2)"
    by blast
  from P(2) have "buf' = [12, 13, 7, 11]" by (simp only: m)
  with P(1) have b: "pdsb st' = Some [12, 13, 7, 11]" by simp
  from P(3) have "unat n = 0" by simp
  then have z: "n = 0" by (simp add: unat_eq_0)
  show ?thesis using lock b z k d r unfolding run by simp
qed

subsection \<open>One iteration of the loop\<close>

lemma AddData_body_failed_query:
  assumes "pdsb st = Some buf" and "position s = None"
  shows "AddData_body s p n st = Inr (Break, p, n, logged GetCurrentPosition st)"
  using assms by (simp add: AddData_body_def)

lemma AddData_body_unfold:
  assumes buf: "pdsb st = Some buf" and pos: "position s = Some (pc, wc)"
    and nz: "nSampleBufferSize st \<noteq> 0"
    and sp0: "nSpace0 = (nSampleBufferSize st + pc - dwWriteOffset st) mod nSampleBufferSize st"
    and sp: "nSpace = (if nSpace0 <s n then nSpace0 else n)"
    and T: "(if nSpace \<noteq> 0 then write_space s buf nSpace p n (logged GetCurrentPosition st)
            else (p, n, logged GetCurrentPosition st)) = (p', n', st2)"
  shows "AddData_body s p n st =
           (if n' = 0 then Inr (Break, p', n', st2)
            else Inr (Continue, p', n', logged (Sleep 2) st2))"
  unfolding AddData_body_def Let_def buf pos option.case prod.case
    sp0 [symmetric] sp [symmetric] T
  using nz by simp

lemma write_facts:
  assumes ok: "device_ok st" and buf: "pdsb st = Some buf"
    and sp: "unat nSpace \<le> unat nLength" "unat nSpace < unat (nSampleBufferSize st)"
    and run: "write_space s buf nSpace p nLength st = (p', n', st')"
  shows "unat n' \<le> unat nLength" and "unat nLength - unat n' \<le> unat nSpace"
    and "lock_ok s \<Longrightarrow> unat nLength - unat n' = unat nSpace"
    and "unat (dwWriteOffset st') =
           (unat (dwWriteOffset st) + (unat nLength - unat n')) mod unat (nSampleBufferSize st)"
    and "device_ok st'" and "nSampleBufferSize st' = nSampleBufferSize st"
proof -
  from ok buf obtain len: "length buf = unat (nSampleBufferSize st)"
    and pos: "0 < unat (nSampleBufferSize st)" and small: "unat (nSampleBufferSize st) < 2147483648"
    and off: "unat (dwWriteOffset st) < unat (nSampleBufferSize st)"
    by (auto elim: device_okD)
  have all: "unat n' \<le> unat nLength \<and> unat nLength - unat n' \<le> unat nSpace \<and>
      (lock_ok s \<longrightarrow> unat nLength - unat n' = unat nSpace) \<and>
      unat (dwWriteOffset st') =
           (unat (dwWriteOffset st) + (unat nLength - unat n')) mod unat (nSampleBufferSize st) \<and>
      device_ok st' \<and> nSampleBufferSize st' = nSampleBufferSize st"
  proof (cases "ds_lock buf (lock_ok s) (dwWriteOffset st) nSpace")
    case None
    then have "\<not> lock_ok s" using off sp(2) len by (simp add: ds_lock_def Let_def split: if_splits)
    moreover from write_space_refused [OF None, of p nLength] run
    have "n' = nLength" "st' = logged (Lock (dwWriteOffset st) nSpace 0) st" by simp_all
    ultimately show ?thesis using ok off by (simp add: logged_simps)
  next
    case (Some r)
    then obtain pv1 l1 pv2 l2 where lock: "ds_lock buf (lock_ok s) (dwWriteOffset st) nSpace = Some (pv1, l1, pv2, l2)"
      by (cases r) auto
    define w1 where "w1 = (if l1 < nLength then l1 else nLength)"
    define w2 where "w2 = (if l2 < nLength - w1 then l2 else nLength - w1)"
    note U = clamp_unat [OF w1_def w2_def]
    note D = ds_lock_SomeD [OF lock]
    have l1: "unat l1 \<le> unat nSpace" and l12: "unat l1 + unat l2 = unat nSpace"
      using D(6,7) by simp_all
    have e1: "unat w1 = unat l1" using U(1) l1 sp(1) by simp
    have e2: "unat w2 = unat l2" using U(2) l12 sp(1) unfolding e1 by simp
    have tot: "unat w1 + unat w2 = unat nSpace" using e1 e2 l12 by simp
    have eq: "(p', n', st') =
          (advance p (unat w1 + unat w2), nLength - w1 - w2,
           st\<lparr>pdsb := Some (memcpy (memcpy buf pv1 p (unat w1)) pv2 (advance p (unat w1)) (unat w2)),
              dwWriteOffset := (dwWriteOffset st + w1 + w2) mod nSampleBufferSize st,
              calls := calls st @ [Lock (dwWriteOffset st) nSpace 0, Unlock w1 w2]\<rparr>)"
      using write_space_eq [OF lock w1_def w2_def, of p] unfolding run .
    then have n': "n' = nLength - w1 - w2"
      and st': "st' = st\<lparr>pdsb := Some (memcpy (memcpy buf pv1 p (unat w1)) pv2 (advance p (unat w1)) (unat w2)),
              dwWriteOffset := (dwWriteOffset st + w1 + w2) mod nSampleBufferSize st,
              calls := calls st @ [Lock (dwWriteOffset st) nSpace 0, Unlock w1 w2]\<rparr>"
      by (simp_all only: prod.inject)
    have un': "unat n' = unat nLength - unat nSpace" unfolding n' U(3) tot ..
    have committed: "unat nLength - unat n' = unat nSpace" using un' sp(1) by simp
    have "unat (dwWriteOffset st) + unat w1 + unat w2 < 4294967296"
      using off small sp(2) tot by linarith
    then have o': "unat ((dwWriteOffset st + w1 + w2) mod nSampleBufferSize st)
                    = (unat (dwWriteOffset st) + unat w1 + unat w2) mod unat (nSampleBufferSize st)"
      by (rule unat_offset)
    have off': "unat (dwWriteOffset st') = (unat (dwWriteOffset st) + unat nSpace) mod unat (nSampleBufferSize st)"
      unfolding st' using o' tot by (simp add: add.assoc)
    then have lt: "unat (dwWriteOffset st') < unat (nSampleBufferSize st)" using pos by simp
    have sz: "nSampleBufferSize st' = nSampleBufferSize st" unfolding st' by simp
    have b': "pdsb st' = Some (memcpy (memcpy buf pv1 p (unat w1)) pv2 (advance p (unat w1)) (unat w2))"
      unfolding st' by simp
    have "device_ok st'"
      using ok buf lt unfolding device_ok_def b' sz by (simp add: word_less_nat_alt len)
    then show ?thesis using un' committed off' sz by simp
  qed
  then show "unat n' \<le> unat nLength" and "unat nLength - unat n' \<le> unat nSpace"
    and "lock_ok s \<Longrightarrow> unat nLength - unat n' = unat nSpace"
    and "unat (dwWriteOffset st') =
           (unat (dwWriteOffset st) + (unat nLength - unat n')) mod unat (nSampleBufferSize st)"
    and "device_ok st'" and "nSampleBufferSize st' = nSampleBufferSize st"
    by simp_all
qed

lemma body_facts:
  assumes ok: "device_ok st" and cur: "cursor_in (nSampleBufferSize st) s" and n: "0 <s nLength"
    and run: "AddData_body s p nLength st = Inr (f, p', n', st')"
  shows "unat n' \<le> unat nLength \<and>
         unat (dwWriteOffset st') =
           (unat (dwWriteOffset st) + (unat nLength - unat n')) mod unat (nSampleBufferSize st) \<and>
         device_ok st' \<and> nSampleBufferSize st' = nSampleBufferSize st \<and>
         (\<forall>pc wc. position s = Some (pc, wc) \<longrightarrow>
            unat nLength - unat n' \<le>
              (unat (nSampleBufferSize st) + unat pc - unat (dwWriteOffset st))
                mod unat (nSampleBufferSize st)) \<and>
         (f = Continue \<longrightarrow> 0 <s n')"
proof -
  from ok obtain buf where buf: "pdsb st = Some buf"
    and len: "length buf = unat (nSampleBufferSize st)"
    and pos: "0 < unat (nSampleBufferSize st)" and small: "unat (nSampleBufferSize st) < 2147483648"
    and off: "unat (dwWriteOffset st) < unat (nSampleBufferSize st)"
    and nz: "nSampleBufferSize st \<noteq> 0"
    by (rule device_okD)
  from n have npos: "0 < unat nLength" and nsmall: "unat nLength < 2147483648"
    by (simp_all add: sless_0_iff)
  show ?thesis
  proof (cases "position s")
    case None
    from AddData_body_failed_query [OF buf None, of p nLength] run
    have "f = Break" "n' = nLength" "st' = logged GetCurrentPosition st" by simp_all
    then show ?thesis using None ok off by simp
  next
    case (Some c)
    then obtain pc wc where c: "position s = Some (pc, wc)" by (cases c) auto
    from cur c have pc: "unat pc < unat (nSampleBufferSize st)"
      by (simp add: cursor_in_def word_less_nat_alt)
    define nSpace0 where
      "nSpace0 = (nSampleBufferSize st + pc - dwWriteOffset st) mod nSampleBufferSize st"
    define nSpace where "nSpace = (if nSpace0 <s nLength then nSpace0 else nLength)"
    define st1 where "st1 = logged GetCurrentPosition st"
    define space where "space = (unat (nSampleBufferSize st) + unat pc - unat (dwWriteOffset st))
                mod unat (nSampleBufferSize st)"
    have u0: "unat nSpace0 = space"
      unfolding nSpace0_def space_def by (rule unat_space [OF small off pc])
    have s0: "space < unat (nSampleBufferSize st)" unfolding space_def using pos by simp
    then have "unat nSpace0 < 2147483648" using small u0 by linarith
    from min_signed [OF this n]
    have us: "unat nSpace = min space (unat nLength)" unfolding nSpace_def u0 .
    obtain q m st2 where T: "(if nSpace \<noteq> 0 then write_space s buf nSpace p nLength st1
            else (p, nLength, st1)) = (q, m, st2)"
      by (metis prod_cases3)
    have ok1: "device_ok st1" and buf1: "pdsb st1 = Some buf"
      and sz1: "nSampleBufferSize st1 = nSampleBufferSize st"
      and off1: "dwWriteOffset st1 = dwWriteOffset st"
      using ok buf by (simp_all add: st1_def)
    have W: "unat m \<le> unat nLength \<and> unat nLength - unat m \<le> space \<and>
        unat (dwWriteOffset st2) =
           (unat (dwWriteOffset st) + (unat nLength - unat m)) mod unat (nSampleBufferSize st) \<and>
        device_ok st2 \<and> nSampleBufferSize st2 = nSampleBufferSize st"
    proof (cases "nSpace = 0")
      case True
      with T have "m = nLength" "st2 = st1" by simp_all
      then show ?thesis using ok1 sz1 off1 off by simp
    next
      case False
      with T have run1: "write_space s buf nSpace p nLength st1 = (q, m, st2)" by simp
      have a: "unat nSpace \<le> unat nLength" using us by simp
      have b: "unat nSpace < unat (nSampleBufferSize st1)" using us s0 sz1 by simp
      have "unat nSpace \<le> space" using us by simp
      with write_facts [OF ok1 buf1 a b run1] show ?thesis
        unfolding sz1 off1 by simp
    qed
    from AddData_body_unfold [OF buf c nz nSpace0_def nSpace_def T [unfolded st1_def]] run
    have r: "(if m = 0 then Inr (Break, q, m, st2) else Inr (Continue, q, m, logged (Sleep 2) st2))
              = (Inr (f, p', n', st') :: fault + flow \<times> (nat \<Rightarrow> BYTE) \<times> cint \<times> audio)"
      by simp
    have n': "n' = m" using r by (simp split: if_splits)
    have fl: "f = Continue \<longrightarrow> m \<noteq> 0" using r by (auto split: if_splits)
    have st': "st' = st2 \<or> st' = logged (Sleep 2) st2" using r by (auto split: if_splits)
    have cont: "f = Continue \<longrightarrow> 0 <s n'"
    proof
      assume "f = Continue"
      with fl have "m \<noteq> 0" by simp
      then have "0 < unat m" by (simp add: unat_gt_0)
      moreover have "unat m < 2147483648" using W nsmall by linarith
      ultimately show "0 <s n'" unfolding n' by (simp add: sless_0_iff)
    qed
    from st' W have W': "unat (dwWriteOffset st') =
           (unat (dwWriteOffset st) + (unat nLength - unat m)) mod unat (nSampleBufferSize st) \<and>
        device_ok st' \<and> nSampleBufferSize st' = nSampleBufferSize st"
      by auto
    show ?thesis using W W' cont c unfolding n' space_def by simp
  qed
qed

lemma body_progress:
  assumes n: "0 <s n" and run: "AddData_body s p n st = Inr (f, p', n', st')"
  shows "unat n' \<le> unat n" and "f = Continue \<Longrightarrow> 0 <s n'"
    and "f = Break \<Longrightarrow> position s \<noteq> None \<Longrightarrow> n' = 0"
proof -
  from run obtain buf where buf: "pdsb st = Some buf"
    by (auto simp: AddData_body_def split: option.splits)
  have all: "unat n' \<le> unat n \<and> (f = Continue \<longrightarrow> n' \<noteq> 0) \<and>
             (f = Break \<longrightarrow> position s \<noteq> None \<longrightarrow> n' = 0)"
  proof (cases "position s")
    case None
    from AddData_body_failed_query [OF buf None, of p n] run show ?thesis using None by simp
  next
    case (Some c)
    then obtain pc wc where c: "position s = Some (pc, wc)" by (cases c) auto
    from run buf c have nz: "nSampleBufferSize st \<noteq> 0"
      by (auto simp: AddData_body_def split: if_splits)
    define nSpace0 where
      "nSpace0 = (nSampleBufferSize st + pc - dwWriteOffset st) mod nSampleBufferSize st"
    define nSpace where "nSpace = (if nSpace0 <s n then nSpace0 else n)"
    obtain q m st2 where T: "(if nSpace \<noteq> 0
            then write_space s buf nSpace p n (logged GetCurrentPosition st)
            else (p, n, logged GetCurrentPosition st)) = (q, m, st2)"
      by (metis prod_cases3)
    have m: "unat m \<le> unat n"
    proof (cases "nSpace = 0")
      case True
      with T show ?thesis by simp
    next
      case False
      with T show ?thesis by (auto dest: write_space_length)
    qed
    from AddData_body_unfold [OF buf c nz nSpace0_def nSpace_def T] run
    have r: "(if m = 0 then Inr (Break, q, m, st2) else Inr (Continue, q, m, logged (Sleep 2) st2))
              = (Inr (f, p', n', st') :: fault + flow \<times> (nat \<Rightarrow> BYTE) \<times> cint \<times> audio)"
      by simp
    then show ?thesis using m by (auto split: if_splits)
  qed
  then show "unat n' \<le> unat n" and "f = Break \<Longrightarrow> position s \<noteq> None \<Longrightarrow> n' = 0"
    by simp_all
  show "0 <s n'" if "f = Continue"
  proof -
    from all that have "0 < unat n'" by (simp add: unat_gt_0)
    moreover from n all have "unat n' < 2147483648" by (simp add: sless_0_iff)
    ultimately show ?thesis by (simp add: sless_0_iff)
  qed
qed

lemma body_total:
  assumes ok: "device_ok st"
  shows "\<exists>f p' n' st'. AddData_body s p n st = Inr (f, p', n', st')"
proof -
  from ok obtain buf where buf: "pdsb st = Some buf" and nz: "nSampleBufferSize st \<noteq> 0"
    by (rule device_okD)
  show ?thesis
  proof (cases "position s")
    case None
    from AddData_body_failed_query [OF buf None] show ?thesis by blast
  next
    case (Some c)
    then obtain pc wc where c: "position s = Some (pc, wc)" by (cases c) auto
    define nSpace0 where
      "nSpace0 = (nSampleBufferSize st + pc - dwWriteOffset st) mod nSampleBufferSize st"
    define nSpace where "nSpace = (if nSpace0 <s n then nSpace0 else n)"
    obtain q m st2 where T: "(if nSpace \<noteq> 0
            then write_space s buf nSpace p n (logged GetCurrentPosition st)
            else (p, n, logged GetCurrentPosition st)) = (q, m, st2)"
      by (metis prod_cases3)
    from AddData_body_unfold [OF buf c nz nSpace0_def nSpace_def T] show ?thesis
      by (cases "m = 0") auto
  qed
qed

text \<open>With room for all the bytes and the lock granted, one iteration commits them all.\<close>

lemma body_commits_all:
  assumes ok: "device_ok st" and n: "0 <s n" and c: "position s = Some (pc, wc)"
    and pc: "pc < nSampleBufferSize st" and lk: "lock_ok s"
    and room: "unat n \<le> (unat (nSampleBufferSize st) + unat pc - unat (dwWriteOffset st))
                          mod unat (nSampleBufferSize st)"
  shows "\<exists>p' st'. AddData_body s p n st = Inr (Break, p', 0, st')"
proof -
  from ok obtain buf where buf: "pdsb st = Some buf"
    and small: "unat (nSampleBufferSize st) < 2147483648"
    and pos: "0 < unat (nSampleBufferSize st)"
    and off: "unat (dwWriteOffset st) < unat (nSampleBufferSize st)"
    and nz: "nSampleBufferSize st \<noteq> 0"
    by (rule device_okD)
  from n have npos: "0 < unat n" by (simp add: sless_0_iff)
  from pc have pc': "unat pc < unat (nSampleBufferSize st)" by (simp add: word_less_nat_alt)
  define nSpace0 where
    "nSpace0 = (nSampleBufferSize st + pc - dwWriteOffset st) mod nSampleBufferSize st"
  define nSpace where "nSpace = (if nSpace0 <s n then nSpace0 else n)"
  define st1 where "st1 = logged GetCurrentPosition st"
  define space where "space = (unat (nSampleBufferSize st) + unat pc - unat (dwWriteOffset st))
                mod unat (nSampleBufferSize st)"
  have u0: "unat nSpace0 = space"
    unfolding nSpace0_def space_def by (rule unat_space [OF small off pc'])
  have s0: "space < unat (nSampleBufferSize st)" unfolding space_def using pos by simp
  then have "unat nSpace0 < 2147483648" using small u0 by linarith
  from min_signed [OF this n]
  have us: "unat nSpace = min space (unat n)" unfolding nSpace_def u0 .
  then have un: "unat nSpace = unat n" using room unfolding space_def by simp
  then have ne: "nSpace \<noteq> 0" using npos by (auto simp: unat_0)
  obtain q m st2 where W: "write_space s buf nSpace p n st1 = (q, m, st2)"
    by (metis prod_cases3)
  with ne have T: "(if nSpace \<noteq> 0 then write_space s buf nSpace p n (logged GetCurrentPosition st)
            else (p, n, logged GetCurrentPosition st)) = (q, m, st2)"
    by (simp add: st1_def)
  have ok1: "device_ok st1" and buf1: "pdsb st1 = Some buf"
    and sz1: "nSampleBufferSize st1 = nSampleBufferSize st"
    using ok buf by (simp_all add: st1_def)
  have a: "unat nSpace \<le> unat n" using un by simp
  have b: "unat nSpace < unat (nSampleBufferSize st1)" using us s0 sz1 by simp
  from write_facts (1,3) [OF ok1 buf1 a b W] lk un have "unat m = 0" by simp
  then have m: "m = 0" by (simp add: unat_eq_0)
  from AddData_body_unfold [OF buf c nz nSpace0_def nSpace_def T] m show ?thesis by auto
qed

subsection \<open>The loop and the calls\<close>

lemma loop_facts:
  assumes "device_ok st" and "list_all (cursor_in (nSampleBufferSize st)) ss"
    and "AddData_loop ss p n st = Some (Inr (n', st'))"
  shows "unat n' \<le> unat n \<and>
         unat (dwWriteOffset st') =
           (unat (dwWriteOffset st) + (unat n - unat n')) mod unat (nSampleBufferSize st) \<and>
         device_ok st' \<and> nSampleBufferSize st' = nSampleBufferSize st"
  using assms
proof (induction ss arbitrary: p n st)
  case Nil
  from Nil(1) have "unat (dwWriteOffset st) < unat (nSampleBufferSize st)"
    by (rule device_okD)
  with Nil show ?case by (simp split: if_splits)
next
  case (Cons s ss)
  from Cons.prems(1) have off: "unat (dwWriteOffset st) < unat (nSampleBufferSize st)"
    by (rule device_okD)
  show ?case
  proof (cases "0 <s n")
    case False
    with Cons.prems(3) have "n' = n" "st' = st" by simp_all
    with off Cons.prems(1) show ?thesis by simp
  next
    case True
    from Cons.prems(2) have cur: "cursor_in (nSampleBufferSize st) s"
      and curs: "list_all (cursor_in (nSampleBufferSize st)) ss" by simp_all
    from True Cons.prems(3) obtain f q m st1 where
      body: "AddData_body s p n st = Inr (f, q, m, st1)"
      by (auto split: sum.splits)
    note B = body_facts [OF Cons.prems(1) cur True body]
    show ?thesis
    proof (cases f)
      case Break
      with True body Cons.prems(3) have "n' = m" "st' = st1" by simp_all
      with B show ?thesis by simp
    next
      case Continue
      with True body Cons.prems(3) have rest: "AddData_loop ss q m st1 = Some (Inr (n', st'))"
        by simp
      from B have ok1: "device_ok st1" and sz: "nSampleBufferSize st1 = nSampleBufferSize st"
        and m: "unat m \<le> unat n"
        and o1: "unat (dwWriteOffset st1) =
           (unat (dwWriteOffset st) + (unat n - unat m)) mod unat (nSampleBufferSize st)"
        by simp_all
      from curs have curs1: "list_all (cursor_in (nSampleBufferSize st1)) ss" unfolding sz .
      note I = Cons.IH [OF ok1 curs1 rest]
      from I have n': "unat n' \<le> unat m" by simp
      have "unat (dwWriteOffset st') =
              ((unat (dwWriteOffset st) + (unat n - unat m)) mod unat (nSampleBufferSize st)
                 + (unat m - unat n')) mod unat (nSampleBufferSize st)"
        using I unfolding sz o1 by simp
      also have "\<dots> = (unat (dwWriteOffset st) + (unat n - unat m) + (unat m - unat n'))
                         mod unat (nSampleBufferSize st)"
        by (rule mod_add_left_eq)
      also have "unat (dwWriteOffset st) + (unat n - unat m) + (unat m - unat n')
                   = unat (dwWriteOffset st) + (unat n - unat n')"
        using m n' by linarith
      finally show ?thesis using I m n' sz by simp
    qed
  qed
qed

lemma loop_all_committed:
  assumes "list_all (\<lambda>s. position s \<noteq> None) ss" and "0 <s n"
    and "AddData_loop ss p n st = Some (Inr (n', st'))"
  shows "n' = 0"
  using assms
proof (induction ss arbitrary: p n st)
  case Nil
  then show ?case by simp
next
  case (Cons s ss)
  from Cons.prems(2,3) obtain f q m st1 where
    body: "AddData_body s p n st = Inr (f, q, m, st1)"
    by (auto split: sum.splits)
  note P = body_progress [OF Cons.prems(2) body]
  from Cons.prems(1) have s: "position s \<noteq> None"
    and ss: "list_all (\<lambda>s. position s \<noteq> None) ss" by simp_all
  show ?case
  proof (cases f)
    case Break
    with Cons.prems(2,3) body have "n' = m" by simp
    with P(3) Break s show ?thesis by simp
  next
    case Continue
    with Cons.prems(2,3) body have "AddData_loop ss q m st1 = Some (Inr (n', st'))" by simp
    from Cons.IH [OF ss P(2) [OF Continue] this] show ?thesis .
  qed
qed

lemma calls_facts:
  assumes "device_ok st"
    and "list_all (\<lambda>c. list_all (cursor_in (nSampleBufferSize st)) (fst c)) cs"
    and "AddData_calls cs st = Some (Inr (N, st'))"
  shows "unat (dwWriteOffset st') = (unat (dwWriteOffset st) + N) mod unat (nSampleBufferSize st) \<and>
         device_ok st' \<and> nSampleBufferSize st' = nSampleBufferSize st"
  using assms
proof (induction cs arbitrary: st N)
  case Nil
  from Nil(1) have "unat (dwWriteOffset st) < unat (nSampleBufferSize st)"
    by (rule device_okD)
  with Nil show ?case by simp
next
  case (Cons c cs)
  obtain ss p n where c: "c = (ss, p, n)" by (cases c) auto
  from Cons.prems(3) c obtain n1 st1 k where
    l: "AddData_loop ss p n st = Some (Inr (n1, st1))"
    and r: "AddData_calls cs st1 = Some (Inr (k, st'))"
    and N: "N = unat n - unat n1 + k"
    by (auto split: option.splits sum.splits)
  from Cons.prems(2) c have cur: "list_all (cursor_in (nSampleBufferSize st)) ss"
    and curs: "list_all (\<lambda>c. list_all (cursor_in (nSampleBufferSize st)) (fst c)) cs"
    by simp_all
  note L = loop_facts [OF Cons.prems(1) cur l]
  from L have ok1: "device_ok st1" and sz: "nSampleBufferSize st1 = nSampleBufferSize st"
    and o1: "unat (dwWriteOffset st1) =
           (unat (dwWriteOffset st) + (unat n - unat n1)) mod unat (nSampleBufferSize st)"
    by simp_all
  from curs have curs1: "list_all (\<lambda>c. list_all (cursor_in (nSampleBufferSize st1)) (fst c)) cs"
    unfolding sz .
  note I = Cons.IH [OF ok1 curs1 r]
  have "unat (dwWriteOffset st') =
          ((unat (dwWriteOffset st) + (unat n - unat n1)) mod unat (nSampleBufferSize st) + k)
             mod unat (nSampleBufferSize st)"
    using I unfolding sz o1 by simp
  also have "\<dots> = (unat (dwWriteOffset st) + (unat n - unat n1) + k) mod unat (nSampleBufferSize st)"
    by (rule mod_add_left_eq)
  finally show ?case using I sz unfolding N by (simp add: add.assoc)
qed

lemma loop_no_trap:
  assumes "device_ok st" and "list_all (cursor_in (nSampleBufferSize st)) ss"
  shows "AddData_loop ss p n st \<noteq> Some (Inl x)"
  using assms
proof (induction ss arbitrary: p n st)
  case Nil
  then show ?case by simp
next
  case (Cons s ss)
  show ?case
  proof (cases "0 <s n")
    case False
    then show ?thesis by simp
  next
    case True
    from body_total [OF Cons.prems(1)] obtain f q m st1 where
      body: "AddData_body s p n st = Inr (f, q, m, st1)" by blast
    from Cons.prems(2) have cur: "cursor_in (nSampleBufferSize st) s"
      and curs: "list_all (cursor_in (nSampleBufferSize st)) ss" by simp_all
    from body_facts [OF Cons.prems(1) cur True body]
    have ok1: "device_ok st1" and sz: "nSampleBufferSize st1 = nSampleBufferSize st" by simp_all
    from curs have curs1: "list_all (cursor_in (nSampleBufferSize st1)) ss" unfolding sz .
    show ?thesis
    proof (cases f)
      case Break
      with True body show ?thesis by simp
    next
      case Continue
      with True body Cons.IH [OF ok1 curs1] show ?thesis by simp
    qed
  qed
qed

lemma calls_no_trap:
  assumes "device_ok st"
    and "list_all (\<lambda>c. list_all (cursor_in (nSampleBufferSize st)) (fst c)) cs"
  shows "AddData_calls cs st \<noteq> Some (Inl x)"
  using assms
proof (induction cs arbitrary: st)
  case Nil
  then show ?case by simp
next
  case (Cons c cs)
  obtain ss p n where c: "c = (ss, p, n)" by (cases c) auto
  from Cons.prems(2) c have cur: "list_all (cursor_in (nSampleBufferSize st)) ss"
    and curs: "list_all (\<lambda>c. list_all (cursor_in (nSampleBufferSize st)) (fst c)) cs"
    by simp_all
  show ?case
  proof (cases "AddData_loop ss p n st")
    case None
    then show ?thesis using c by simp
  next
    case (Some r)
    show ?thesis
    proof (cases r)
      case (Inl y)
      with Some loop_no_trap [OF Cons.prems(1) cur, of p n y] show ?thesis by simp
    next
      case (Inr b)
      then obtain n1 st1 where l: "AddData_loop ss p n st = Some (Inr (n1, st1))"
        using Some by (cases b) auto
      from loop_facts [OF Cons.prems(1) cur l]
      have ok1: "device_ok st1" and sz: "nSampleBufferSize st1 = nSampleBufferSize st" by simp_all
      from curs have curs1: "list_all (\<lambda>c. list_all (cursor_in (nSampleBufferSize st1)) (fst c)) cs"
        unfolding sz .
      from Cons.IH [OF ok1 curs1] l c show ?thesis
        by (auto split: option.splits sum.splits)
    qed
  qed
qed



subsection \<open>What AddData returns with a device buffer\<close>




text \<open>
  C9: with a buffer and a length that is zero or negative, \<open>AddData\<close> returns
  \<^verbatim>\<open>true\<close> at once: the state, the log of calls included, is the one it was
  called in, whatever the device would have answered.
\<close>

theorem AddData_nonpositive_length:
  assumes "pdsb st = Some buf" and "nLength \<le>s 0"
  shows "AddData opt e pbData nLength st = Some (Inr (True, st))"
proof -
  from assms(2) have "\<not> 0 <s nLength" by (simp add: signed.not_less)
  then have "AddData_loop (steps e) pbData nLength st = Some (Inr (nLength, st))"
    by (cases "steps e") simp_all
  with assms(1) show ?thesis by (simp add: AddData_def)
qed

theorem AddData_nonpositive_length_witness:
  "pdsb st9 = Some [1, 2, 3, 4] \<and> (- 3 :: cint) \<le>s 0 \<and>
   AddData \<lparr>fps = 50, speed = 100\<rparr>
     \<lparr>timer = 0, signalled = False, steps = [\<lparr>position = Some (2, 3), lock_ok = True\<rparr>]\<rparr>
     (\<lambda>i. 9) (- 3) st9 = Some (Inr (True, st9))"
proof -
  have a: "pdsb st9 = Some [1, 2, 3, 4]" by (simp add: st9_def)
  have b: "(- 3 :: cint) \<le>s 0" by (simp add: word_sle_eq)
  from AddData_nonpositive_length [OF a b] a b show ?thesis by simp
qed

text \<open>
  C7: a buffer of 1000 bytes, the write offset at 900, the play cursor at 950 and
  200 bytes to write. The space is 50; the first iteration locks 50 bytes at 900,
  copies the first 50 source bytes, unlocks 50, moves the offset to 950, keeps
  150 bytes and sleeps; the loop goes on with those 150 bytes. When the play
  cursor has then moved to 100 the second iteration commits the 150 bytes, 50 up
  to the end of the buffer and 100 from its start, and the call returns.
\<close>

theorem partial_space_scenario:
  "(nSampleBufferSize st7 + 950 - dwWriteOffset st7) mod nSampleBufferSize st7 = 50 \<and>
   AddData_body \<lparr>position = Some (950, wc), lock_ok = True\<rparr> pbData 200 st7 =
     Inr (Continue, advance pbData 50, 150,
          st7\<lparr>pdsb := Some (memcpy (replicate 1000 0) 900 pbData 50),
              dwWriteOffset := 950,
              calls := [GetCurrentPosition, Lock 900 50 0, Unlock 50 0, Sleep 2]\<rparr>) \<and>
   AddData_loop (\<lparr>position = Some (950, wc), lock_ok = True\<rparr> # ss) pbData 200 st7 =
     AddData_loop ss (advance pbData 50) 150
       (st7\<lparr>pdsb := Some (memcpy (replicate 1000 0) 900 pbData 50),
            dwWriteOffset := 950,
            calls := [GetCurrentPosition, Lock 900 50 0, Unlock 50 0, Sleep 2]\<rparr>) \<and>
   AddData opt \<lparr>timer = t, signalled = sg,
       steps = [\<lparr>position = Some (950, wc), lock_ok = True\<rparr>,
                \<lparr>position = Some (100, wc'), lock_ok = True\<rparr>]\<rparr> pbData 200 st7 =
     Some (Inr (True,
       st7\<lparr>pdsb := Some (memcpy (memcpy (memcpy (replicate 1000 0) 900 pbData 50)
                                950 (advance pbData 50) 50) 0 (advance pbData 100) 100),
           dwWriteOffset := 100,
           calls := [GetCurrentPosition, Lock 900 50 0, Unlock 50 0, Sleep 2,
                     GetCurrentPosition, Lock 950 150 0, Unlock 50 100]\<rparr>))"
proof -
  have sp: "(nSampleBufferSize st7 + 950 - dwWriteOffset st7) mod nSampleBufferSize st7 = 50"
    by (simp add: st7_def)
  have lock1: "ds_lock (replicate 1000 0) True 900 50 = Some (900, 50, 0, 0)"
    by (simp add: ds_lock_def)
  have lock2: "\<And>m. length m = 1000 \<Longrightarrow> ds_lock m True 950 150 = Some (950, 50, 0, 100)"
    by (simp add: ds_lock_def)
  have body: "AddData_body \<lparr>position = Some (950, wc), lock_ok = True\<rparr> pbData 200 st7 =
     Inr (Continue, advance pbData 50, 150,
          st7\<lparr>pdsb := Some (memcpy (replicate 1000 0) 900 pbData 50),
              dwWriteOffset := 950,
              calls := [GetCurrentPosition, Lock 900 50 0, Unlock 50 0, Sleep 2]\<rparr>)"
    by (simp add: AddData_body_def write_space_def lock1 logged_def st7_def word_sless_alt)
  have call: "AddData opt \<lparr>timer = t, signalled = sg,
       steps = [\<lparr>position = Some (950, wc), lock_ok = True\<rparr>,
                \<lparr>position = Some (100, wc'), lock_ok = True\<rparr>]\<rparr> pbData 200 st7 =
     Some (Inr (True,
       st7\<lparr>pdsb := Some (memcpy (memcpy (memcpy (replicate 1000 0) 900 pbData 50)
                                950 (advance pbData 50) 50) 0 (advance pbData 100) 100),
           dwWriteOffset := 100,
           calls := [GetCurrentPosition, Lock 900 50 0, Unlock 50 0, Sleep 2,
                     GetCurrentPosition, Lock 950 150 0, Unlock 50 100]\<rparr>))"
    by (simp add: AddData_def AddData_body_def write_space_def lock1 lock2 logged_def st7_def
        word_sless_alt)
  show ?thesis using sp body call by (simp add: word_sless_alt)
qed

subsection \<open>AddData without a device buffer\<close>

lemma pacer_same_interval:
  assumes "dwTime_of opt = Inr t" and "dwTimer st = t"
  shows "pacer opt answer st = Inr (logged (WaitForSingleObject (hEvent st)) st)"
  using assms by (simp add: pacer_def)

lemma pacer_new_interval:
  assumes "dwTime_of opt = Inr t" and "dwTimer st \<noteq> t"
  shows "pacer opt answer st =
           Inr (st\<lparr>dwTimer := t, hTimer := answer,
                  calls := calls st @ (if hTimer st \<noteq> 0 then [timeKillEvent (hTimer st)] else [])
                             @ [timeSetEvent t] @ (if answer = 0 then [Message] else [])
                             @ [WaitForSingleObject (hEvent st)]\<rparr>)"
  using assms by (simp add: pacer_def restart_timer_def logged_def Let_def)

lemma frames_same_interval:
  assumes "pdsb st = None" and "dwTimer st = t"
    and "list_all (\<lambda>c. dwTime_of (fst c) = Inr t \<and> signalled (fst (snd c))) fs"
  shows "AddData_frames fs st =
           Some (Inr (replicate (length fs) False,
                      st\<lparr>calls := calls st @ replicate (length fs) (WaitForSingleObject (hEvent st))\<rparr>))"
  using assms
proof (induction fs arbitrary: st)
  case Nil
  then show ?case by simp
next
  case (Cons c fs)
  obtain opt e p n where c: "c = (opt, e, p, n)" by (cases c) auto
  let ?st1 = "logged (WaitForSingleObject (hEvent st)) st"
  from Cons.prems(3) c have t: "dwTime_of opt = Inr t" and sg: "signalled e"
    and rest: "list_all (\<lambda>c. dwTime_of (fst c) = Inr t \<and> signalled (fst (snd c))) fs"
    by simp_all
  have "pacer opt (timer e) st = Inr ?st1"
    using pacer_same_interval [OF t Cons.prems(2)] .
  then have one: "AddData opt e p n st = Some (Inr (False, ?st1))"
    using Cons.prems(1) sg by (simp add: AddData_def)
  have "AddData_frames fs ?st1 =
          Some (Inr (replicate (length fs) False,
                ?st1\<lparr>calls := calls ?st1 @ replicate (length fs) (WaitForSingleObject (hEvent ?st1))\<rparr>))"
    using Cons.prems(1,2) by (intro Cons.IH [OF _ _ rest]) simp_all
  with one show ?case
    unfolding c by (simp add: logged_def replicate_append_same)
qed

text \<open>
  Every call without a buffer ends in one of three ways: the division of the
  interval traps; or the event is never set and the call never returns; or the
  call returns \<^verbatim>\<open>false\<close> after it has waited for the event, the write offset
  untouched.
\<close>

lemma AddData_without_buffer:
  assumes "pdsb st = None"
  shows "case AddData opt e pbData nLength st of
           None \<Rightarrow> \<not> signalled e \<and> dwTime_of opt \<noteq> Inl DivideByZero
         | Some (Inl f) \<Rightarrow> dwTime_of opt = Inl f
         | Some (Inr (r, st')) \<Rightarrow>
             \<not> r \<and> signalled e \<and> dwWriteOffset st' = dwWriteOffset st \<and> pdsb st' = None \<and>
             last (calls st') = WaitForSingleObject (hEvent st)"
  using assms
  by (cases "dwTime_of opt")
     (auto simp add: AddData_def pacer_def restart_timer_def logged_def Let_def)

text \<open>
  C4 promises the return of \<^verbatim>\<open>false\<close> for every call without a buffer. With 50
  frames per second and a speed of 1 per cent the call does not get as far as
  the wait: \<open>50 * 1 / 100\<close> is 0 and the division of 1000 by it traps.
\<close>

theorem AddData_without_buffer_speed_1:
  "AddData \<lparr>fps = 50, speed = 1\<rparr> e pbData nLength st8 = Some (Inl DivideByZero)"
  by (simp add: AddData_def pacer_def dwTime_of_def signed_divide_int_def st8_def)

text \<open>
  C8: a call without a buffer computes an interval \<open>t\<close> that differs from the
  stored one, and \<^verbatim>\<open>timeSetEvent\<close> fails. The state in which the call waits then
  has \<open>dwTimer = t\<close> and no timer (\<open>hTimer = 0\<close>), the warning issued. In every
  state with \<open>dwTimer = t\<close> and no timer, a call that computes the same \<open>t\<close> makes
  one call only, the wait for the event, and leaves \<open>dwTimer\<close> and \<open>hTimer\<close> as
  they are; so any number of such calls in sequence, each with the event set,
  return \<^verbatim>\<open>false\<close> and add nothing to the log but one wait each.
\<close>

theorem failed_timer_not_restarted:
  assumes t: "dwTime_of opt = Inr t" and new: "dwTimer st \<noteq> t" and none: "pdsb st = None"
    and fails: "timer e = 0"
  shows "(\<exists>st1. pacer opt (timer e) st = Inr st1 \<and>
            AddData opt e pbData nLength st = (if signalled e then Some (Inr (False, st1)) else None) \<and>
            pdsb st1 = None \<and> dwTimer st1 = t \<and> hTimer st1 = 0 \<and>
            calls st1 = calls st @ (if hTimer st \<noteq> 0 then [timeKillEvent (hTimer st)] else [])
                          @ [timeSetEvent t, Message, WaitForSingleObject (hEvent st)]) \<and>
         (dwTime_of opt' = Inr t \<and> pdsb stn = None \<and> dwTimer stn = t \<and> hTimer stn = 0 \<longrightarrow>
            (\<exists>st3. pacer opt' (timer e') stn = Inr st3 \<and>
               AddData opt' e' pbData' nLength' stn =
                 (if signalled e' then Some (Inr (False, st3)) else None) \<and>
               pdsb st3 = None \<and> dwTimer st3 = t \<and> hTimer st3 = 0 \<and>
               calls st3 = calls stn @ [WaitForSingleObject (hEvent stn)])) \<and>
         (list_all (\<lambda>c. dwTime_of (fst c) = Inr t \<and> signalled (fst (snd c))) fs \<and>
          pdsb stn = None \<and> dwTimer stn = t \<and> hTimer stn = 0 \<longrightarrow>
            AddData_frames fs stn =
              Some (Inr (replicate (length fs) False,
                         stn\<lparr>calls := calls stn @
                               replicate (length fs) (WaitForSingleObject (hEvent stn))\<rparr>)))"
proof (intro conjI impI)
  let ?st1 = "st\<lparr>dwTimer := t, hTimer := 0,
                  calls := calls st @ (if hTimer st \<noteq> 0 then [timeKillEvent (hTimer st)] else [])
                             @ [timeSetEvent t, Message, WaitForSingleObject (hEvent st)]\<rparr>"
  have p: "pacer opt (timer e) st = Inr ?st1"
    using pacer_new_interval [OF t new, of 0] fails by simp
  then have "AddData opt e pbData nLength st = (if signalled e then Some (Inr (False, ?st1)) else None)"
    using none by (simp add: AddData_def)
  with p none show "\<exists>st1. pacer opt (timer e) st = Inr st1 \<and>
            AddData opt e pbData nLength st = (if signalled e then Some (Inr (False, st1)) else None) \<and>
            pdsb st1 = None \<and> dwTimer st1 = t \<and> hTimer st1 = 0 \<and>
            calls st1 = calls st @ (if hTimer st \<noteq> 0 then [timeKillEvent (hTimer st)] else [])
                          @ [timeSetEvent t, Message, WaitForSingleObject (hEvent st)]"
    by (intro exI [of _ ?st1]) simp
next
  assume a: "dwTime_of opt' = Inr t \<and> pdsb stn = None \<and> dwTimer stn = t \<and> hTimer stn = 0"
  let ?st3 = "logged (WaitForSingleObject (hEvent stn)) stn"
  from a have p: "pacer opt' (timer e') stn = Inr ?st3"
    using pacer_same_interval by blast
  then have "AddData opt' e' pbData' nLength' stn =
                 (if signalled e' then Some (Inr (False, ?st3)) else None)"
    using a by (simp add: AddData_def)
  with p a show "\<exists>st3. pacer opt' (timer e') stn = Inr st3 \<and>
               AddData opt' e' pbData' nLength' stn =
                 (if signalled e' then Some (Inr (False, st3)) else None) \<and>
               pdsb st3 = None \<and> dwTimer st3 = t \<and> hTimer st3 = 0 \<and>
               calls st3 = calls stn @ [WaitForSingleObject (hEvent stn)]"
    by (intro exI [of _ ?st3]) simp
next
  assume "list_all (\<lambda>c. dwTime_of (fst c) = Inr t \<and> signalled (fst (snd c))) fs \<and>
          pdsb stn = None \<and> dwTimer stn = t \<and> hTimer stn = 0"
  then show "AddData_frames fs stn =
              Some (Inr (replicate (length fs) False,
                         stn\<lparr>calls := calls stn @
                               replicate (length fs) (WaitForSingleObject (hEvent stn))\<rparr>))"
    using frames_same_interval by blast
qed

theorem failed_timer_not_restarted_witness:
  "dwTime_of \<lparr>fps = 50, speed = 100\<rparr> = Inr 20 \<and> dwTimer st8 \<noteq> 20 \<and> pdsb st8 = None \<and>
   AddData \<lparr>fps = 50, speed = 100\<rparr> \<lparr>timer = 0, signalled = True, steps = []\<rparr> data9 4 st8
     = Some (Inr (False, st8\<lparr>dwTimer := 20,
          calls := [timeSetEvent 20, Message, WaitForSingleObject 7]\<rparr>)) \<and>
   AddData \<lparr>fps = 50, speed = 100\<rparr> \<lparr>timer = 5, signalled = True, steps = []\<rparr> data9 4
       (st8\<lparr>dwTimer := 20, calls := [timeSetEvent 20, Message, WaitForSingleObject 7]\<rparr>)
     = Some (Inr (False, st8\<lparr>dwTimer := 20,
          calls := [timeSetEvent 20, Message, WaitForSingleObject 7, WaitForSingleObject 7]\<rparr>)) \<and>
   AddData_frames
       [(\<lparr>fps = 50, speed = 100\<rparr>, \<lparr>timer = 5, signalled = True, steps = []\<rparr>, data9, 4),
        (\<lparr>fps = 50, speed = 100\<rparr>, \<lparr>timer = 5, signalled = True, steps = []\<rparr>, data9, 0)]
       (st8\<lparr>dwTimer := 20, calls := [timeSetEvent 20, Message, WaitForSingleObject 7]\<rparr>)
     = Some (Inr ([False, False], st8\<lparr>dwTimer := 20,
          calls := [timeSetEvent 20, Message, WaitForSingleObject 7,
                    WaitForSingleObject 7, WaitForSingleObject 7]\<rparr>))"
proof -
  let ?o = "\<lparr>fps = 50, speed = 100\<rparr>"
  let ?e = "\<lparr>timer = 0, signalled = True, steps = []\<rparr>"
  let ?e' = "\<lparr>timer = 5, signalled = True, steps = []\<rparr>"
  let ?st1 = "st8\<lparr>dwTimer := 20, calls := [timeSetEvent 20, Message, WaitForSingleObject 7]\<rparr>"
  let ?fs = "[(?o, ?e', data9, 4 :: cint), (?o, ?e', data9, 0 :: cint)]"
  have t: "dwTime_of ?o = Inr 20" by (simp add: dwTime_of_def signed_divide_int_def)
  have new: "dwTimer st8 \<noteq> 20" by (simp add: st8_def)
  have none: "pdsb st8 = None" by (simp add: st8_def)
  have f: "timer ?e = 0" by simp
  have i: "pdsb ?st1 = None \<and> dwTimer ?st1 = 20 \<and> hTimer ?st1 = 0" by (simp add: st8_def)
  have fs: "list_all (\<lambda>c. dwTime_of (fst c) = Inr 20 \<and> signalled (fst (snd c))) ?fs"
    using t by simp
  note T = failed_timer_not_restarted [OF t new none f, where pbData = data9 and nLength = 4
      and opt' = ?o and stn = ?st1 and e' = ?e' and pbData' = data9 and nLength' = 4
      and fs = ?fs]
  from T obtain st1 where
    A: "AddData ?o ?e data9 4 st8 = (if signalled ?e then Some (Inr (False, st1)) else None)"
      "pacer ?o (timer ?e) st8 = Inr st1"
    by blast
  have "pacer ?o (timer ?e) st8 = Inr ?st1"
    by (simp add: pacer_def t restart_timer_def logged_def st8_def)
  with A(2) have "st1 = ?st1" by simp
  with A(1) have A': "AddData ?o ?e data9 4 st8 = Some (Inr (False, ?st1))" by simp
  from T t i obtain st3 where
    B: "AddData ?o ?e' data9 4 ?st1 = (if signalled ?e' then Some (Inr (False, st3)) else None)"
      "pacer ?o (timer ?e') ?st1 = Inr st3"
    by blast
  have "pacer ?o (timer ?e') ?st1 = Inr (st8\<lparr>dwTimer := 20,
          calls := [timeSetEvent 20, Message, WaitForSingleObject 7, WaitForSingleObject 7]\<rparr>)"
    by (simp add: pacer_def t logged_def st8_def)
  with B have B': "AddData ?o ?e' data9 4 ?st1 = Some (Inr (False, st8\<lparr>dwTimer := 20,
          calls := [timeSetEvent 20, Message, WaitForSingleObject 7, WaitForSingleObject 7]\<rparr>))"
    by simp
  have P: "list_all (\<lambda>c. dwTime_of (fst c) = Inr 20 \<and> signalled (fst (snd c))) ?fs \<and>
           pdsb ?st1 = None \<and> dwTimer ?st1 = 20 \<and> hTimer ?st1 = 0"
    using fs i by (intro conjI) simp_all
  from T [THEN conjunct2, THEN conjunct2] P have "AddData_frames ?fs ?st1 =
      Some (Inr (replicate (length ?fs) False,
                 ?st1\<lparr>calls := calls ?st1 @ replicate (length ?fs) (WaitForSingleObject (hEvent ?st1))\<rparr>))"
    by (rule mp)
  then have C': "AddData_frames ?fs ?st1 = Some (Inr ([False, False], st8\<lparr>dwTimer := 20,
          calls := [timeSetEvent 20, Message, WaitForSingleObject 7,
                    WaitForSingleObject 7, WaitForSingleObject 7]\<rparr>))"
    by (simp add: st8_def numeral_2_eq_2)
  show ?thesis using t new none A' B' C' by simp
qed

end
